theory Spec2Isabelle
  imports Complex_Main "HOL-Library.Log_Nat"
begin

section \<open>JavaScript numbers\<close>

text \<open>
  The program computes with JavaScript Number values: the binary64 values of IEEE 754.
  A finite non-zero value is modelled by the rational it denotes, \<open>Num 0\<close> is the positive
  zero and \<open>NegZero\<close> the negative one; the infinities and NaN are kept. The arithmetic
  operators never throw. Each of them computes the exact result and rounds it to the
  nearest binary64 value, ties to the value with the even significand; a result of
  magnitude \<open>2^1024\<close> or more after rounding is an infinity, a non-zero result that rounds
  to zero keeps its sign.
\<close>

datatype jsnum = Num rat | NegZero | PosInf | NegInf | NaN

subsection \<open>Rounding to binary64\<close>

text \<open>The exponent \<open>e\<close> of a positive rational: \<open>2^e \<le> q < 2^(e+1)\<close>.\<close>

definition expo :: "rat \<Rightarrow> int" where
  "expo q = (if 1 \<le> q then bitlen \<lfloor>q\<rfloor> - 1 else - bitlen (\<lceil>1 / q\<rceil> - 1))"

text \<open>
  The exponent of the unit in the last place: 53 significant bits, and no finer than
  \<open>2^-1074\<close>, the spacing of the subnormal values.
\<close>

definition ulp_expo :: "rat \<Rightarrow> int" where
  "ulp_expo q = max (expo q - 52) (- 1074)"

text \<open>The nearest integer, a tie going to the even one.\<close>

definition round_half_even :: "rat \<Rightarrow> int" where
  "round_half_even t =
     (let n = \<lfloor>t\<rfloor>; r = t - of_int n
      in if r < 1 / 2 then n else if 1 / 2 < r then n + 1 else if even n then n else n + 1)"

text \<open>A positive rational rounded to the nearest multiple of its unit in the last place.\<close>

definition round_mag :: "rat \<Rightarrow> rat" where
  "round_mag q = of_int (round_half_even (q / 2 powi ulp_expo q)) * 2 powi ulp_expo q"

text \<open>The Number an exact result becomes.\<close>

definition js_round :: "rat \<Rightarrow> jsnum" where
  "js_round q =
     (if q = 0 then Num 0
      else if 0 < q then
        (let m = round_mag q
         in if m = 0 then Num 0 else if 1024 \<le> expo m then PosInf else Num m)
      else
        (let m = round_mag (- q)
         in if m = 0 then NegZero else if 1024 \<le> expo m then NegInf else Num (- m)))"

text \<open>The rationals that are Number values: rounding leaves them as they are.\<close>

definition js_representable :: "rat \<Rightarrow> bool" where
  "js_representable q = (js_round q = Num q)"

subsection \<open>Operators\<close>

text \<open>The sign bit, the two zeros, the two infinities, the value of a finite Number.\<close>

fun js_negative :: "jsnum \<Rightarrow> bool" where
  "js_negative (Num a) = (a < 0)"
| "js_negative NegZero = True"
| "js_negative PosInf = False"
| "js_negative NegInf = True"
| "js_negative NaN = False"

fun js_is_zero :: "jsnum \<Rightarrow> bool" where
  "js_is_zero (Num a) = (a = 0)"
| "js_is_zero NegZero = True"
| "js_is_zero PosInf = False"
| "js_is_zero NegInf = False"
| "js_is_zero NaN = False"

fun js_is_inf :: "jsnum \<Rightarrow> bool" where
  "js_is_inf (Num a) = False"
| "js_is_inf NegZero = False"
| "js_is_inf PosInf = True"
| "js_is_inf NegInf = True"
| "js_is_inf NaN = False"

fun js_value :: "jsnum \<Rightarrow> rat" where
  "js_value (Num a) = a"
| "js_value NegZero = 0"
| "js_value PosInf = 0"
| "js_value NegInf = 0"
| "js_value NaN = 0"

definition signed_zero :: "bool \<Rightarrow> jsnum" where
  "signed_zero negative = (if negative then NegZero else Num 0)"

definition signed_inf :: "bool \<Rightarrow> jsnum" where
  "signed_inf negative = (if negative then NegInf else PosInf)"

text \<open>Unary minus.\<close>

fun js_neg :: "jsnum \<Rightarrow> jsnum" where
  "js_neg (Num a) = (if a = 0 then NegZero else Num (- a))"
| "js_neg NegZero = Num 0"
| "js_neg PosInf = NegInf"
| "js_neg NegInf = PosInf"
| "js_neg NaN = NaN"

text \<open>
  The operator \<^verbatim>\<open>*\<close>: an infinity times a zero is NaN; otherwise the sign is the
  exclusive or of the signs.
\<close>

definition js_mul :: "jsnum \<Rightarrow> jsnum \<Rightarrow> jsnum" where
  "js_mul x y =
     (if x = NaN \<or> y = NaN then NaN
      else if (js_is_inf x \<and> js_is_zero y) \<or> (js_is_zero x \<and> js_is_inf y) then NaN
      else if js_is_inf x \<or> js_is_inf y then signed_inf (js_negative x \<noteq> js_negative y)
      else if js_is_zero x \<or> js_is_zero y then signed_zero (js_negative x \<noteq> js_negative y)
      else js_round (js_value x * js_value y))"

text \<open>
  The operator \<^verbatim>\<open>/\<close>: an infinity over an infinity and a zero over a zero are NaN; a
  division by a zero is otherwise an infinity, a division by an infinity a zero.
\<close>

definition js_div :: "jsnum \<Rightarrow> jsnum \<Rightarrow> jsnum" where
  "js_div x y =
     (if x = NaN \<or> y = NaN then NaN
      else if (js_is_inf x \<and> js_is_inf y) \<or> (js_is_zero x \<and> js_is_zero y) then NaN
      else if js_is_inf x \<or> js_is_zero y then signed_inf (js_negative x \<noteq> js_negative y)
      else if js_is_zero x \<or> js_is_inf y then signed_zero (js_negative x \<noteq> js_negative y)
      else js_round (js_value x / js_value y))"

text \<open>
  The operator \<^verbatim>\<open>+\<close> on numbers: opposite infinities add to NaN; two negative zeros add
  to the negative zero, and every other exact sum of zero is the positive zero.
\<close>

definition js_add :: "jsnum \<Rightarrow> jsnum \<Rightarrow> jsnum" where
  "js_add x y =
     (if x = NaN \<or> y = NaN then NaN
      else if js_is_inf x \<and> js_is_inf y then (if x = y then x else NaN)
      else if js_is_inf x then x
      else if js_is_inf y then y
      else if x = NegZero \<and> y = NegZero then NegZero
      else js_round (js_value x + js_value y))"

text \<open>The operator \<^verbatim>\<open>-\<close>.\<close>

definition js_sub :: "jsnum \<Rightarrow> jsnum \<Rightarrow> jsnum" where
  "js_sub a b = js_add a (js_neg b)"

text \<open>
  \<^verbatim>\<open>Math.floor\<close>: exact on the finite values, the zeros and the special values are
  returned as they are.
\<close>

fun js_floor :: "jsnum \<Rightarrow> jsnum" where
  "js_floor (Num a) = Num (of_int \<lfloor>a\<rfloor>)"
| "js_floor NegZero = NegZero"
| "js_floor PosInf = PosInf"
| "js_floor NegInf = NegInf"
| "js_floor NaN = NaN"

text \<open>
  The comparison \<^verbatim>\<open>===\<close> on numbers: NaN equals nothing, itself included, and the two
  zeros are equal.
\<close>

definition js_eq :: "jsnum \<Rightarrow> jsnum \<Rightarrow> bool" where
  "js_eq x y =
     (if x = NaN \<or> y = NaN then False
      else if js_is_inf x \<or> js_is_inf y then x = y
      else js_value x = js_value y)"

text \<open>The comparison \<^verbatim>\<open><\<close> on numbers: false as soon as one side is NaN.\<close>

definition js_lt :: "jsnum \<Rightarrow> jsnum \<Rightarrow> bool" where
  "js_lt x y =
     (if x = NaN \<or> y = NaN then False
      else if x = PosInf \<or> y = NegInf then False
      else if x = NegInf \<or> y = PosInf then True
      else js_value x < js_value y)"

text \<open>The comparisons \<^verbatim>\<open>>\<close> and \<^verbatim>\<open><=\<close>.\<close>

definition js_gt :: "jsnum \<Rightarrow> jsnum \<Rightarrow> bool" where
  "js_gt a b = js_lt b a"

definition js_le :: "jsnum \<Rightarrow> jsnum \<Rightarrow> bool" where
  "js_le a b = (js_lt a b \<or> js_eq a b)"

section \<open>Arrays\<close>

text \<open>
  The array \<^verbatim>\<open>s\<close> of \<^verbatim>\<open>calculateBaseSpeeds\<close> is a store from integer keys to
  numbers. A write at any key succeeds (the language extends the array, or adds a
  property for a key that is no index). A key never written holds \<^verbatim>\<open>undefined\<close>;
  every read of \<^verbatim>\<open>s\<close> in the program is an operand of \<^verbatim>\<open>*\<close> or \<^verbatim>\<open>/\<close>, which
  convert \<^verbatim>\<open>undefined\<close> to NaN, or lies in the final \<^verbatim>\<open>slice\<close> over the keys
  1 to 4, which \<^verbatim>\<open>fill(0)\<close> has written. So an absent key reads as NaN.
\<close>

type_synonym jsarray = "int \<Rightarrow> jsnum"

text \<open>\<^verbatim>\<open>new Array(n).fill(0)\<close>\<close>

definition new_Array_fill0 :: "int \<Rightarrow> jsarray" where
  "new_Array_fill0 n = (\<lambda>k. if 0 \<le> k \<and> k < n then Num 0 else NaN)"

text \<open>
  The arrays \<^verbatim>\<open>buffs\<close>, \<^verbatim>\<open>effectiveSpeeds\<close> and \<^verbatim>\<open>baseSpeeds\<close> are lists. A read
  outside the list gives \<^verbatim>\<open>undefined\<close>, NaN once it is an operand; a write at or
  beyond the end extends the list, the skipped places reading as NaN; a write at a
  negative key adds a property and leaves the elements as they are.
\<close>

definition js_index :: "jsnum list \<Rightarrow> int \<Rightarrow> jsnum" where
  "js_index xs k = (if 0 \<le> k \<and> k < int (length xs) then xs ! nat k else NaN)"

definition js_store :: "jsnum list \<Rightarrow> int \<Rightarrow> jsnum \<Rightarrow> jsnum list" where
  "js_store xs k v =
     (if k < 0 then xs
      else if k < int (length xs) then xs[nat k := v]
      else xs @ replicate (nat k - length xs) NaN @ [v])"

text \<open>\<^verbatim>\<open>xs.map((x, i) => f(x, i))\<close>, the index counted from \<open>k\<close>.\<close>

primrec mapi_from :: "int \<Rightarrow> (jsnum \<Rightarrow> int \<Rightarrow> jsnum) \<Rightarrow> jsnum list \<Rightarrow> jsnum list" where
  "mapi_from k f [] = []"
| "mapi_from k f (x # xs) = f x k # mapi_from (k + 1) f xs"

section \<open>The program\<close>

text \<open>
  The functions of \<^verbatim>\<open>src/tools/js/party-order.js\<close> that compute. The argument
  \<^verbatim>\<open>position\<close> is an integer (the caller obtains it with \<^verbatim>\<open>parseInt\<close>); the speeds,
  the factor and the buff multipliers are numbers.
\<close>

definition PARTY_SIZE :: int where
  "PARTY_SIZE = 4"

definition floorDiv :: "jsnum \<Rightarrow> jsnum \<Rightarrow> jsnum" where
  "floorDiv a f = js_floor (js_div a f)"

definition floorMul :: "jsnum \<Rightarrow> jsnum \<Rightarrow> jsnum" where
  "floorMul a f = js_floor (js_mul a f)"

text \<open>
  The upward loop of \<^verbatim>\<open>calculateBaseSpeeds\<close>:
  \<^verbatim>\<open>for (let i = position - 1; i >= 1; i--) s[i] = floorMul(s[i + 1], factor) + 1;\<close>
\<close>

function up_loop :: "jsnum \<Rightarrow> int \<Rightarrow> jsarray \<Rightarrow> jsarray" where
  "up_loop factor i s =
     (if i \<ge> 1
      then up_loop factor (i - 1) (s(i := js_add (floorMul (s (i + 1)) factor) (Num 1)))
      else s)"
  by pat_completeness auto
termination
  by (relation "measure (\<lambda>(factor, i, s). nat i)") auto

text \<open>
  The downward loop:
  \<^verbatim>\<open>for (let j = position + 2; j <= PARTY_SIZE; j++) s[j] = floorDiv(s[j - 1], factor) - 1;\<close>
\<close>

function down_loop :: "jsnum \<Rightarrow> int \<Rightarrow> jsarray \<Rightarrow> jsarray" where
  "down_loop factor j s =
     (if j \<le> PARTY_SIZE
      then down_loop factor (j + 1) (s(j := js_sub (floorDiv (s (j - 1)) factor) (Num 1)))
      else s)"
  by pat_completeness auto
termination
  by (relation "measure (\<lambda>(factor, j, s). nat (PARTY_SIZE + 1 - j))") auto

declare up_loop.simps [simp del] down_loop.simps [simp del]

definition calculateBaseSpeeds :: "int \<Rightarrow> jsnum \<Rightarrow> jsnum \<Rightarrow> jsnum list" where
  "calculateBaseSpeeds position baseSpeed factor =
     (let s0 = new_Array_fill0 (PARTY_SIZE + 1);
          s1 = s0(position := baseSpeed);
          s2 = up_loop factor (position - 1) s1;
          minCurr = floorDiv (s2 position) factor;
          s3 = (if position + 1 \<le> PARTY_SIZE
                then s2(position + 1 := js_sub minCurr (Num 1)) else s2);
          s4 = down_loop factor (position + 2) s3
      in map s4 [1..PARTY_SIZE])"

text \<open>
  Step 3 of \<^verbatim>\<open>calculateWithBuffs\<close>:
  \<^verbatim>\<open>for (let i = 0; i < PARTY_SIZE; i++) { if (i === position - 1) baseSpeeds[i] = baseSpeed;
    else baseSpeeds[i] = Math.floor(effectiveSpeeds[i] / buffs[i]); }\<close>
\<close>

function raw_loop ::
  "int \<Rightarrow> jsnum \<Rightarrow> jsnum list \<Rightarrow> jsnum list \<Rightarrow> int \<Rightarrow> jsnum list \<Rightarrow> jsnum list" where
  "raw_loop position baseSpeed effectiveSpeeds buffs i baseSpeeds =
     (if i < PARTY_SIZE
      then raw_loop position baseSpeed effectiveSpeeds buffs (i + 1)
             (js_store baseSpeeds i
                (if i = position - 1 then baseSpeed
                 else js_floor (js_div (js_index effectiveSpeeds i) (js_index buffs i))))
      else baseSpeeds)"
  by pat_completeness auto
termination
  by (relation "measure (\<lambda>(position, baseSpeed, effectiveSpeeds, buffs, i, baseSpeeds).
                  nat (PARTY_SIZE - i))") auto

declare raw_loop.simps [simp del]

record result =
  baseSpeeds :: "jsnum list"
  effectiveSpeeds :: "jsnum list"

definition calculateWithBuffs :: "int \<Rightarrow> jsnum \<Rightarrow> jsnum \<Rightarrow> jsnum list \<Rightarrow> result" where
  "calculateWithBuffs position baseSpeed factor buffs =
     (let baseEffectiveSpeed = js_mul baseSpeed (js_index buffs (position - 1));
          effectiveSpeeds = calculateBaseSpeeds position (js_floor baseEffectiveSpeed) factor;
          baseSpeeds = raw_loop position baseSpeed effectiveSpeeds buffs 0 [];
          finalEffectiveSpeeds =
            mapi_from 0 (\<lambda>speed i. js_floor (js_mul speed (js_index buffs i))) baseSpeeds
      in \<lparr>baseSpeeds = baseSpeeds, effectiveSpeeds = finalEffectiveSpeeds\<rparr>)"

section \<open>Notions used by the properties\<close>

text \<open>
  The array the local \<^verbatim>\<open>effectiveSpeeds\<close> of \<^verbatim>\<open>calculateWithBuffs\<close> holds after
  steps 1 and 2: the thresholds propagated from the floored effective speed of the
  anchor.
\<close>

definition propagatedEffectiveSpeeds :: "int \<Rightarrow> jsnum \<Rightarrow> jsnum \<Rightarrow> jsnum list \<Rightarrow> jsnum list" where
  "propagatedEffectiveSpeeds position baseSpeed factor buffs =
     calculateBaseSpeeds position (js_floor (js_mul baseSpeed (js_index buffs (position - 1)))) factor"

text \<open>The value one round of the upward loop writes from the slot below it.\<close>

definition up_step :: "jsnum \<Rightarrow> jsnum \<Rightarrow> jsnum" where
  "up_step f x = js_add (js_floor (js_mul x f)) (Num 1)"

text \<open>The value the downward pass writes from the slot above it.\<close>

definition down_step :: "jsnum \<Rightarrow> jsnum \<Rightarrow> jsnum" where
  "down_step f x = js_sub (js_floor (js_div x f)) (Num 1)"

text \<open>
  Notions for the proofs about rounding: rounding to the multiples of \<open>2^k\<close>, and the
  rationals that are such multiples.
\<close>

definition round_grid :: "int \<Rightarrow> rat \<Rightarrow> rat" where
  "round_grid k q = of_int (round_half_even (q / 2 powi k)) * 2 powi k"

definition on_grid :: "int \<Rightarrow> rat \<Rightarrow> bool" where
  "on_grid k x = (of_int \<lfloor>x / 2 powi k\<rfloor> * 2 powi k = x)"

text \<open>
  The Numbers that the two passes produce: an integer that is a Number, or an infinity.
\<close>

fun js_whole :: "jsnum \<Rightarrow> bool" where
  "js_whole (Num a) = (of_int \<lfloor>a\<rfloor> = a \<and> js_representable a)"
| "js_whole NegZero = False"
| "js_whole PosInf = True"
| "js_whole NegInf = True"
| "js_whole NaN = False"

text \<open>
  The Numbers that the upward pass meets: zero, a Number that is at least 1, or Infinity.
\<close>

fun js_upward :: "jsnum \<Rightarrow> bool" where
  "js_upward (Num a) = (js_representable a \<and> (a = 0 \<or> 1 \<le> a))"
| "js_upward NegZero = False"
| "js_upward PosInf = True"
| "js_upward NegInf = False"
| "js_upward NaN = False"

section \<open>Numbers: results that are not NaN\<close>

lemma js_round_not_NaN: "js_round q \<noteq> NaN"
  by (simp add: js_round_def Let_def)

lemma js_eq_refl: "x \<noteq> NaN \<Longrightarrow> js_eq x x"
  by (simp add: js_eq_def)

lemma js_floor_not_NaN: "x \<noteq> NaN \<Longrightarrow> js_floor x \<noteq> NaN"
  by (cases x) simp_all

lemma js_mul_not_NaN: "x \<noteq> NaN \<Longrightarrow> c \<noteq> 0 \<Longrightarrow> js_mul x (Num c) \<noteq> NaN"
  by (simp add: js_mul_def js_round_not_NaN signed_inf_def signed_zero_def)

lemma js_div_not_NaN: "x \<noteq> NaN \<Longrightarrow> c \<noteq> 0 \<Longrightarrow> js_div x (Num c) \<noteq> NaN"
  by (simp add: js_div_def js_round_not_NaN signed_inf_def signed_zero_def)

lemma js_add_not_NaN: "x \<noteq> NaN \<Longrightarrow> js_add x (Num c) \<noteq> NaN"
  by (simp add: js_add_def js_round_not_NaN)

lemma js_sub_not_NaN: "x \<noteq> NaN \<Longrightarrow> js_sub x (Num 1) \<noteq> NaN"
  by (simp add: js_sub_def js_add_not_NaN)

lemma up_step_not_NaN: "x \<noteq> NaN \<Longrightarrow> q \<noteq> 0 \<Longrightarrow> up_step (Num q) x \<noteq> NaN"
  by (simp add: up_step_def js_add_not_NaN js_floor_not_NaN js_mul_not_NaN)

lemma down_step_not_NaN: "x \<noteq> NaN \<Longrightarrow> q \<noteq> 0 \<Longrightarrow> down_step (Num q) x \<noteq> NaN"
  by (simp add: down_step_def js_sub_not_NaN js_floor_not_NaN js_div_not_NaN)

lemma zero_div_special: "js_is_zero z \<Longrightarrow> js_floor (js_div x z) \<in> {PosInf, NegInf, NaN}"
  by (cases x; cases z) (simp_all add: js_div_def signed_inf_def)

lemma special_times_zero:
  "y \<in> {PosInf, NegInf, NaN} \<Longrightarrow> js_is_zero z \<Longrightarrow> js_floor (js_mul y z) = NaN"
  by (cases z) (auto simp: js_mul_def)

section \<open>The propagation, slot by slot\<close>

lemma slots_upto: "[1..4::int] = [1, 2, 3, 4]"
  by (simp add: upto.simps)

lemma slot_cases: "1 \<le> (s::int) \<Longrightarrow> s \<le> 4 \<Longrightarrow> s = 1 \<or> s = 2 \<or> s = 3 \<or> s = 4"
  by arith

lemmas propagate_unfold = calculateBaseSpeeds_def Let_def slots_upto new_Array_fill0_def
  up_loop.simps down_loop.simps PARTY_SIZE_def floorMul_def floorDiv_def up_step_def down_step_def

lemma propagate_1:
  "calculateBaseSpeeds 1 v f =
     [v, down_step f v, down_step f (down_step f v), down_step f (down_step f (down_step f v))]"
  by (simp add: propagate_unfold)

lemma propagate_2:
  "calculateBaseSpeeds 2 v f = [up_step f v, v, down_step f v, down_step f (down_step f v)]"
  by (simp add: propagate_unfold)

lemma propagate_3:
  "calculateBaseSpeeds 3 v f = [up_step f (up_step f v), up_step f v, v, down_step f v]"
  by (simp add: propagate_unfold)

lemma propagate_4:
  "calculateBaseSpeeds 4 v f =
     [up_step f (up_step f (up_step f v)), up_step f (up_step f v), up_step f v, v]"
  by (simp add: propagate_unfold)

lemmas propagate_at = propagate_1 propagate_2 propagate_3 propagate_4

lemma propagate_length: "length (calculateBaseSpeeds s v f) = 4"
  by (simp add: calculateBaseSpeeds_def Let_def slots_upto PARTY_SIZE_def)

lemma propagate_anchor: "1 \<le> s \<Longrightarrow> s \<le> 4 \<Longrightarrow> calculateBaseSpeeds s v f ! nat (s - 1) = v"
  by (drule (1) slot_cases) (auto simp: propagate_at)

lemma propagate_up:
  assumes "1 \<le> s" "s \<le> 4" "1 \<le> i" "i < s"
  shows "calculateBaseSpeeds s v f ! nat (i - 1) = up_step f (calculateBaseSpeeds s v f ! nat i)"
proof -
  have i: "i = 1 \<or> i = 2 \<or> i = 3" using assms by arith
  show ?thesis
    using slot_cases [OF assms(1,2)] i assms(4)
    by (elim disjE) (simp_all add: propagate_at)
qed

lemma propagate_down:
  assumes "1 \<le> s" "s \<le> 4" "s < i" "i \<le> 4"
  shows "calculateBaseSpeeds s v f ! nat (i - 1) = down_step f (calculateBaseSpeeds s v f ! nat (i - 2))"
proof -
  have i: "i = 2 \<or> i = 3 \<or> i = 4" using assms by arith
  show ?thesis
    using slot_cases [OF assms(1,2)] i assms(3)
    by (elim disjE) (simp_all add: propagate_at)
qed

lemma propagate_not_NaN:
  assumes "1 \<le> s" "s \<le> 4" "q \<noteq> 0" "v \<noteq> NaN" "k < 4"
  shows "calculateBaseSpeeds s v (Num q) ! k \<noteq> NaN"
proof -
  have k: "k = 0 \<or> k = 1 \<or> k = 2 \<or> k = 3" using assms(5) by arith
  show ?thesis
    using slot_cases [OF assms(1,2)] k assms(3,4)
    by (elim disjE) (simp_all add: propagate_at up_step_not_NaN down_step_not_NaN)
qed

section \<open>The resolver, slot by slot\<close>

lemma resolver_baseSpeeds:
  "baseSpeeds (calculateWithBuffs p r f b) =
     map (\<lambda>i. if i = p - 1 then r
               else js_floor (js_div (js_index (propagatedEffectiveSpeeds p r f b) i) (js_index b i)))
       [0, 1, 2, 3]"
  by (simp add: calculateWithBuffs_def propagatedEffectiveSpeeds_def Let_def raw_loop.simps
        PARTY_SIZE_def js_store_def)

lemma resolver_effectiveSpeeds:
  "effectiveSpeeds (calculateWithBuffs p r f b) =
     map (\<lambda>i. js_floor (js_mul (js_index (baseSpeeds (calculateWithBuffs p r f b)) i)
                 (js_index b i)))
       [0, 1, 2, 3]"
  by (simp add: calculateWithBuffs_def Let_def raw_loop.simps PARTY_SIZE_def js_store_def
        js_index_def)

lemma nth_map4: "i < 4 \<Longrightarrow> map g [0, 1, 2, 3 :: int] ! i = g (int i)"
proof -
  assume "i < 4"
  then have "i = 0 \<or> i = 1 \<or> i = 2 \<or> i = 3" by arith
  then show ?thesis by (elim disjE) simp_all
qed

lemma js_index_nth: "i < length xs \<Longrightarrow> js_index xs (int i) = xs ! i"
  by (simp add: js_index_def)

lemma anchor_index: "1 \<le> s \<Longrightarrow> s \<le> 4 \<Longrightarrow> nat (s - 1) < 4 \<and> int (nat (s - 1)) = s - 1"
  by simp

lemma propagated_length: "length (propagatedEffectiveSpeeds p r f b) = 4"
  by (simp add: propagatedEffectiveSpeeds_def propagate_length)

lemma baseSpeeds_length: "length (baseSpeeds (calculateWithBuffs p r f b)) = 4"
  by (simp add: resolver_baseSpeeds)

lemma effectiveSpeeds_length: "length (effectiveSpeeds (calculateWithBuffs p r f b)) = 4"
  by (simp add: resolver_effectiveSpeeds)

lemma baseSpeeds_nth:
  assumes "i < 4" "length b = 4"
  shows "baseSpeeds (calculateWithBuffs p r f b) ! i =
           (if int i = p - 1 then r
            else js_floor (js_div (propagatedEffectiveSpeeds p r f b ! i) (b ! i)))"
  by (simp only: resolver_baseSpeeds nth_map4 [OF assms(1)])
     (simp add: js_index_nth propagated_length assms)

lemma effectiveSpeeds_nth:
  assumes "i < 4" "length b = 4"
  shows "effectiveSpeeds (calculateWithBuffs p r f b) ! i =
           js_floor (js_mul (baseSpeeds (calculateWithBuffs p r f b) ! i) (b ! i))"
  by (subst resolver_effectiveSpeeds, simp only: nth_map4 [OF assms(1)])
     (simp add: js_index_nth baseSpeeds_length assms)

lemma propagated_anchor_buff:
  assumes "1 \<le> s" "s \<le> 4" "length bs = 4"
  shows "propagatedEffectiveSpeeds s r f (map Num bs) =
           calculateBaseSpeeds s (js_floor (js_mul r (Num (bs ! nat (s - 1))))) f"
  using assms by (simp add: propagatedEffectiveSpeeds_def js_index_def)

lemma positive_buff: "length bs = 4 \<Longrightarrow> \<forall>x\<in>set bs. 0 < x \<Longrightarrow> i < 4 \<Longrightarrow> 0 < bs ! (i::nat)"
  by simp

lemma propagated_not_NaN:
  assumes "1 \<le> s" "s \<le> 4" "f \<noteq> 0" "length bs = 4" "\<forall>x\<in>set bs. 0 < x" "i < 4"
  shows "propagatedEffectiveSpeeds s (Num r) (Num f) (map Num bs) ! i \<noteq> NaN"
proof -
  have "0 < bs ! nat (s - 1)" using assms(1,2,4,5) by simp
  then have "js_floor (js_mul (Num r) (Num (bs ! nat (s - 1)))) \<noteq> NaN"
    by (simp add: js_floor_not_NaN js_mul_not_NaN)
  with assms(1,2,3) have
    "calculateBaseSpeeds s (js_floor (js_mul (Num r) (Num (bs ! nat (s - 1))))) (Num f) ! i \<noteq> NaN"
    using assms(6) by (rule propagate_not_NaN)
  then show ?thesis by (simp add: propagated_anchor_buff [OF assms(1,2,4)])
qed

lemma baseSpeeds_not_NaN:
  assumes "1 \<le> s" "s \<le> 4" "f \<noteq> 0" "length bs = 4" "\<forall>x\<in>set bs. 0 < x" "i < 4"
  shows "baseSpeeds (calculateWithBuffs s (Num r) (Num f) (map Num bs)) ! i \<noteq> NaN"
proof -
  have "0 < bs ! i" using assms(4,5,6) by simp
  then have "bs ! i \<noteq> 0" by simp
  with propagated_not_NaN [OF assms, of r] show ?thesis
    using assms(4,6) by (simp add: baseSpeeds_nth js_floor_not_NaN js_div_not_NaN)
qed

section \<open>Rounding: the exponent\<close>

lemma expo_ge1:
  assumes "1 \<le> q"
  shows "2 powi (expo q) \<le> q" and "q < 2 powi (expo q + 1)"
proof -
  let ?n = "\<lfloor>q\<rfloor>"
  have n: "0 < ?n" using assms by simp
  from bitlen_bounds [OF n] have lo: "2 ^ nat (bitlen ?n - 1) \<le> ?n" and hi: "?n < 2 ^ nat (bitlen ?n)"
    by simp_all
  have b: "1 \<le> bitlen ?n" using n by (simp add: bitlen_alt_def)
  have e: "expo q = bitlen ?n - 1" using assms by (simp add: expo_def)
  have "(2::rat) powi (bitlen ?n - 1) = of_int (2 ^ nat (bitlen ?n - 1))"
    using b by (simp add: power_int_def)
  also have "\<dots> \<le> of_int ?n" using lo by (simp only: of_int_le_iff)
  also have "\<dots> \<le> q" by simp
  finally show "2 powi (expo q) \<le> q" by (simp add: e)
  have "?n + 1 \<le> 2 ^ nat (bitlen ?n)" using hi by simp
  then have "(of_int (?n + 1) :: rat) \<le> of_int (2 ^ nat (bitlen ?n))" by (simp only: of_int_le_iff)
  moreover have "q < of_int (?n + 1)" by simp linarith
  moreover have "(2::rat) powi (bitlen ?n) = of_int (2 ^ nat (bitlen ?n))"
    using b by (simp add: power_int_def)
  ultimately show "q < 2 powi (expo q + 1)" by (simp add: e)
qed

lemma expo_lt1:
  assumes "0 < q" "q < 1"
  shows "2 powi (expo q) \<le> q" and "q < 2 powi (expo q + 1)"
proof -
  let ?c = "\<lceil>1 / q\<rceil>"
  have iq: "1 < 1 / q" using assms by simp
  then have c: "0 < ?c - 1" by (simp add: less_ceiling_iff)
  from bitlen_bounds [OF c] have lo: "2 ^ nat (bitlen (?c - 1) - 1) \<le> ?c - 1"
    and hi: "?c - 1 < 2 ^ nat (bitlen (?c - 1))"
    by simp_all
  have b: "1 \<le> bitlen (?c - 1)" using c by (simp add: bitlen_alt_def)
  have e: "expo q = - bitlen (?c - 1)" using assms by (simp add: expo_def)
  have "?c \<le> 2 ^ nat (bitlen (?c - 1))" using hi by simp
  then have "(of_int ?c :: rat) \<le> of_int (2 ^ nat (bitlen (?c - 1)))" by (simp only: of_int_le_iff)
  moreover have "1 / q \<le> of_int ?c" by simp
  ultimately have "1 / q \<le> of_int (2 ^ nat (bitlen (?c - 1)))" by (rule order_trans [rotated])
  then have "1 / q \<le> 2 ^ nat (bitlen (?c - 1))" by simp
  then have "1 / 2 ^ nat (bitlen (?c - 1)) \<le> q"
    using assms(1) by (simp add: field_simps)
  moreover have "(2::rat) powi (- bitlen (?c - 1)) = 1 / 2 ^ nat (bitlen (?c - 1))"
    using b by (simp add: power_int_def field_simps)
  ultimately show "2 powi (expo q) \<le> q" by (simp add: e)
  have "(of_int (2 ^ nat (bitlen (?c - 1) - 1)) :: rat) \<le> of_int (?c - 1)"
    using lo by (simp only: of_int_le_iff)
  moreover have "of_int (?c - 1) < 1 / q" by simp linarith
  ultimately have "of_int (2 ^ nat (bitlen (?c - 1) - 1)) < 1 / q" by (rule le_less_trans)
  then have "2 ^ nat (bitlen (?c - 1) - 1) < 1 / q" by simp
  then have "q < 1 / 2 ^ nat (bitlen (?c - 1) - 1)"
    using assms(1) by (simp add: field_simps)
  moreover have "(2::rat) powi (- bitlen (?c - 1) + 1) = 1 / 2 ^ nat (bitlen (?c - 1) - 1)"
  proof -
    have "- bitlen (?c - 1) + 1 = - (bitlen (?c - 1) - 1)" by simp
    then show ?thesis
      using b by (simp only: power_int_minus_divide) (simp add: power_int_def)
  qed
  ultimately show "q < 2 powi (expo q + 1)" by (simp add: e)
qed

lemma expo_bounds:
  assumes "0 < q"
  shows "2 powi (expo q) \<le> q" and "q < 2 powi (expo q + 1)"
  using assms expo_ge1 [of q] expo_lt1 [of q] by (cases "1 \<le> q"; simp)+

lemma expo_unique:
  assumes "2 powi e \<le> q" "q < 2 powi (e + 1)"
  shows "expo q = e"
proof -
  have q: "0 < q" using assms(1) by (rule less_le_trans [rotated]) simp
  note b = expo_bounds [OF q]
  have "\<not> expo q < e"
  proof
    assume "expo q < e"
    then have "expo q + 1 \<le> e" by simp
    then have "(2::rat) powi (expo q + 1) \<le> 2 powi e" by (intro power_int_increasing) simp_all
    with b(2) assms(1) show False by simp
  qed
  moreover have "\<not> e < expo q"
  proof
    assume "e < expo q"
    then have "e + 1 \<le> expo q" by simp
    then have "(2::rat) powi (e + 1) \<le> 2 powi (expo q)" by (intro power_int_increasing) simp_all
    with b(1) assms(2) show False by simp
  qed
  ultimately show ?thesis by simp
qed

lemma expo_mono:
  assumes "0 < a" "a \<le> b"
  shows "expo a \<le> expo b"
proof (rule ccontr)
  assume "\<not> expo a \<le> expo b"
  then have "expo b + 1 \<le> expo a" by simp
  then have "(2::rat) powi (expo b + 1) \<le> 2 powi (expo a)" by (intro power_int_increasing) simp_all
  moreover have "0 < b" using assms by simp
  ultimately show False
    using expo_bounds(1) [OF assms(1)] expo_bounds(2) [of b] assms(2) by simp
qed

section \<open>Rounding: multiples of a power of two\<close>

lemma pow2_pos [simp]: "0 < (2::rat) powi k"
  by (simp add: power_int_def)

lemma pow2_add: "(2::rat) powi (a + b) = 2 powi a * 2 powi b"
  by (simp add: power_int_add)

lemma pow2_nat: "0 \<le> k \<Longrightarrow> (2::rat) powi k = of_int (2 ^ nat k)"
  by (simp add: power_int_def)

lemma rhe_of_int: "round_half_even (of_int n) = n"
  by (simp add: round_half_even_def)

lemma rhe_bounds: "\<lfloor>t\<rfloor> \<le> round_half_even t" "round_half_even t \<le> \<lfloor>t\<rfloor> + 1"
  by (simp_all add: round_half_even_def Let_def)

lemma rhe_mono:
  assumes "t \<le> u"
  shows "round_half_even t \<le> round_half_even u"
proof (cases "\<lfloor>t\<rfloor> = \<lfloor>u\<rfloor>")
  case True
  with assms have "t - of_int \<lfloor>t\<rfloor> \<le> u - of_int \<lfloor>u\<rfloor>" by simp
  with True show ?thesis by (auto simp: round_half_even_def Let_def)
next
  case False
  with assms have "\<lfloor>t\<rfloor> + 1 \<le> \<lfloor>u\<rfloor>" using floor_mono [OF assms] by linarith
  with rhe_bounds(2) [of t] rhe_bounds(1) [of u] show ?thesis by linarith
qed

lemma rhe_err: "\<bar>of_int (round_half_even t) - t\<bar> \<le> 1 / 2"
proof -
  have "of_int \<lfloor>t\<rfloor> \<le> t" "t < of_int \<lfloor>t\<rfloor> + 1" by linarith+
  then show ?thesis by (auto simp: round_half_even_def Let_def abs_le_iff)
qed

lemma on_gridI: "x = of_int n * 2 powi k \<Longrightarrow> on_grid k x"
  by (simp add: on_grid_def)

lemma on_gridD: "on_grid k x \<Longrightarrow> x = of_int \<lfloor>x / 2 powi k\<rfloor> * 2 powi k"
  by (simp add: on_grid_def)

lemma round_grid_on_grid: "on_grid k (round_grid k q)"
  by (rule on_gridI) (simp add: round_grid_def)

lemma round_grid_fix: "on_grid k x \<Longrightarrow> round_grid k x = x"
proof -
  assume "on_grid k x"
  then have x: "x = of_int \<lfloor>x / 2 powi k\<rfloor> * 2 powi k" by (rule on_gridD)
  have "round_grid k (of_int \<lfloor>x / 2 powi k\<rfloor> * 2 powi k) = of_int \<lfloor>x / 2 powi k\<rfloor> * 2 powi k"
    by (simp add: round_grid_def rhe_of_int)
  with x show ?thesis by simp
qed

lemma round_grid_mono: "a \<le> b \<Longrightarrow> round_grid k a \<le> round_grid k b"
proof -
  assume "a \<le> b"
  then have "a / 2 powi k \<le> b / 2 powi k" by (simp add: divide_right_mono)
  then have "round_half_even (a / 2 powi k) \<le> round_half_even (b / 2 powi k)" by (rule rhe_mono)
  then show ?thesis by (simp add: round_grid_def)
qed

lemma round_grid_err: "\<bar>round_grid k q - q\<bar> \<le> 2 powi k / 2"
proof -
  have "\<bar>of_int (round_half_even (q / 2 powi k)) - q / 2 powi k\<bar> * 2 powi k \<le> 1 / 2 * 2 powi k"
    by (intro mult_right_mono rhe_err) simp
  moreover have "\<bar>of_int (round_half_even (q / 2 powi k)) - q / 2 powi k\<bar> * 2 powi k =
      \<bar>round_grid k q - q\<bar>"
  proof -
    have "\<bar>of_int (round_half_even (q / 2 powi k)) - q / 2 powi k\<bar> * 2 powi k =
        \<bar>(of_int (round_half_even (q / 2 powi k)) - q / 2 powi k) * 2 powi k\<bar>"
      by (simp add: abs_mult)
    also have "(of_int (round_half_even (q / 2 powi k)) - q / 2 powi k) * 2 powi k =
        round_grid k q - q"
      by (simp add: round_grid_def algebra_simps)
    finally show ?thesis .
  qed
  ultimately show ?thesis by simp
qed

lemma on_gridE:
  assumes "on_grid k x"
  obtains n :: int where "x = of_int n * 2 powi k"
  using on_gridD [OF assms] by blast

lemma pow2_split: "j \<le> k \<Longrightarrow> (2::rat) powi k = of_int (2 ^ nat (k - j)) * 2 powi j"
proof -
  assume "j \<le> k"
  have "(2::rat) powi k = 2 powi ((k - j) + j)" by simp
  also have "\<dots> = 2 powi (k - j) * 2 powi j" by (rule pow2_add)
  also have "(2::rat) powi (k - j) = of_int (2 ^ nat (k - j))"
    using \<open>j \<le> k\<close> by (simp add: pow2_nat)
  finally show ?thesis .
qed

lemma on_grid_finer:
  assumes "j \<le> k" "on_grid k x"
  shows "on_grid j x"
proof -
  from assms(2) obtain n :: int where "x = of_int n * 2 powi k" by (rule on_gridE)
  then have "x = of_int (n * 2 ^ nat (k - j)) * 2 powi j"
    by (simp add: pow2_split [OF assms(1)])
  then show ?thesis by (rule on_gridI)
qed

lemma on_grid_pow: "k \<le> j \<Longrightarrow> on_grid k (2 powi j)"
  by (rule on_gridI [of _ "2 ^ nat (j - k)"]) (rule pow2_split)

lemma on_grid_zero: "on_grid k 0"
  by (simp add: on_grid_def)

lemma on_grid_add: "on_grid k x \<Longrightarrow> on_grid k y \<Longrightarrow> on_grid k (x + y)"
proof -
  assume x: "on_grid k x" and y: "on_grid k y"
  from x obtain n :: int where "x = of_int n * 2 powi k" by (rule on_gridE)
  moreover from y obtain m :: int where "y = of_int m * 2 powi k" by (rule on_gridE)
  ultimately
  have "x + y = of_int (n + m) * 2 powi k"
    by (simp add: algebra_simps)
  then show ?thesis by (rule on_gridI)
qed

lemma on_grid_minus: "on_grid k x \<Longrightarrow> on_grid k (- x)"
proof -
  assume "on_grid k x"
  then obtain n :: int where "x = of_int n * 2 powi k" by (rule on_gridE)
  then have "- x = of_int (- n) * 2 powi k" by simp
  then show ?thesis by (rule on_gridI)
qed

lemma on_grid_pos_ge: "on_grid k x \<Longrightarrow> 0 < x \<Longrightarrow> 2 powi k \<le> x"
proof -
  assume g: "on_grid k x" and x: "0 < x"
  from g obtain n :: int where e: "x = of_int n * 2 powi k" by (rule on_gridE)
  have "0 < (of_int n :: rat)"
  proof (rule ccontr)
    assume "\<not> 0 < (of_int n :: rat)"
    then have "(of_int n :: rat) \<le> 0" by simp
    then have "of_int n * (2::rat) powi k \<le> 0" by (simp add: mult_le_0_iff)
    with x e show False by simp
  qed
  then have "1 \<le> n" by simp
  then have "(1::rat) \<le> of_int n" by (simp only: of_int_le_iff [symmetric] of_int_1)
  then have "1 * 2 powi k \<le> of_int n * (2::rat) powi k" by (intro mult_right_mono) simp_all
  with e show ?thesis by simp
qed

lemma on_grid_less_le:
  assumes "on_grid k x" "on_grid k y" "x < y"
  shows "x + 2 powi k \<le> y"
proof -
  have "on_grid k (y + (- x))"
    using assms(2) on_grid_minus [OF assms(1)] by (rule on_grid_add)
  moreover have "0 < y + (- x)" using assms(3) by simp
  ultimately have "2 powi k \<le> y + (- x)" by (rule on_grid_pos_ge)
  then show ?thesis by simp
qed

section \<open>Rounding: bounds, fixed points and monotonicity\<close>

lemma round_mag_grid: "round_mag q = round_grid (ulp_expo q) q"
  by (simp add: round_mag_def round_grid_def)

lemma ulp_expo_ge: "- 1074 \<le> ulp_expo q"
  by (simp add: ulp_expo_def)

lemma ulp_expo_ge_expo: "expo q - 52 \<le> ulp_expo q"
  by (simp add: ulp_expo_def)

lemma ulp_expo_mono: "0 < a \<Longrightarrow> a \<le> b \<Longrightarrow> ulp_expo a \<le> ulp_expo b"
  using expo_mono [of a b] by (simp add: ulp_expo_def)

lemma pow2_mono: "a \<le> b \<Longrightarrow> (2::rat) powi a \<le> 2 powi b"
  by (intro power_int_increasing) simp_all

lemma pow2_less_imp: "(2::rat) powi a < 2 powi b \<Longrightarrow> a < b"
  using pow2_mono [of b a] by (cases "a < b") simp_all

lemma expo_less: "0 < d \<Longrightarrow> d < 2 powi j \<Longrightarrow> expo d < j"
  using expo_bounds(1) [of d] by (intro pow2_less_imp) simp

lemma expo_ge: "2 powi j \<le> d \<Longrightarrow> j \<le> expo d"
proof -
  assume j: "2 powi j \<le> d"
  then have d: "0 < d" by (rule less_le_trans [rotated]) simp
  from j expo_bounds(2) [OF d] have "(2::rat) powi j < 2 powi (expo d + 1)" by simp
  then have "j < expo d + 1" by (rule pow2_less_imp)
  then show ?thesis by simp
qed

lemma round_mag_nonneg: "0 < q \<Longrightarrow> 0 \<le> round_mag q"
proof -
  assume "0 < q"
  then have "round_grid (ulp_expo q) 0 \<le> round_grid (ulp_expo q) q"
    by (intro round_grid_mono) simp
  then show ?thesis by (simp add: round_mag_grid round_grid_fix on_grid_zero)
qed

lemma round_mag_upper: "0 < q \<Longrightarrow> round_mag q \<le> 2 powi (ulp_expo q + 53)"
proof -
  assume q: "0 < q"
  have "q < 2 powi (expo q + 1)" using q by (rule expo_bounds)
  also have "\<dots> \<le> 2 powi (ulp_expo q + 53)"
    using ulp_expo_ge_expo [of q] by (intro pow2_mono) simp
  finally have "round_grid (ulp_expo q) q \<le> round_grid (ulp_expo q) (2 powi (ulp_expo q + 53))"
    by (intro round_grid_mono) simp
  moreover have "on_grid (ulp_expo q) (2 powi (ulp_expo q + 53))"
    by (rule on_grid_pow) simp
  ultimately show ?thesis by (simp add: round_mag_grid round_grid_fix)
qed

lemma round_mag_lower: "0 < q \<Longrightarrow> - 1074 \<le> expo q \<Longrightarrow> 2 powi (expo q) \<le> round_mag q"
proof -
  assume q: "0 < q" and e: "- 1074 \<le> expo q"
  have "2 powi (expo q) \<le> q" using q by (rule expo_bounds)
  then have "round_grid (ulp_expo q) (2 powi (expo q)) \<le> round_grid (ulp_expo q) q"
    by (rule round_grid_mono)
  moreover have "on_grid (ulp_expo q) (2 powi (expo q))"
    using e by (intro on_grid_pow) (simp add: ulp_expo_def)
  ultimately show ?thesis by (simp add: round_mag_grid round_grid_fix)
qed

lemma round_mag_fix:
  assumes "0 < d" "on_grid k d" "- 1074 \<le> k" "d \<le> 2 powi (k + 53)"
  shows "round_mag d = d"
proof (cases "d < 2 powi (k + 53)")
  case True
  with assms(1) have "expo d < k + 53" by (rule expo_less)
  with assms(3) have "ulp_expo d \<le> k" by (simp add: ulp_expo_def)
  then have "on_grid (ulp_expo d) d" using assms(2) by (rule on_grid_finer)
  then show ?thesis by (simp add: round_mag_grid round_grid_fix)
next
  case False
  with assms(4) have d: "d = 2 powi (k + 53)" by simp
  have "expo d = k + 53" by (rule expo_unique) (simp_all add: d pow2_add)
  with assms(3) have "ulp_expo d \<le> k + 53" by (simp add: ulp_expo_def)
  then have "on_grid (ulp_expo d) (2 powi (k + 53))" by (rule on_grid_pow)
  then show ?thesis by (simp add: round_mag_grid round_grid_fix d [symmetric])
qed

lemma round_mag_idem: "0 < q \<Longrightarrow> 0 < round_mag q \<Longrightarrow> round_mag (round_mag q) = round_mag q"
proof -
  assume q: "0 < q" and m: "0 < round_mag q"
  from m show ?thesis
  proof (rule round_mag_fix)
    show "on_grid (ulp_expo q) (round_mag q)"
      by (simp add: round_mag_grid round_grid_on_grid)
    show "- 1074 \<le> ulp_expo q" by (rule ulp_expo_ge)
    show "round_mag q \<le> 2 powi (ulp_expo q + 53)" using q by (rule round_mag_upper)
  qed
qed

lemma round_mag_mono:
  assumes "0 < a" "a \<le> b"
  shows "round_mag a \<le> round_mag b"
proof (cases "ulp_expo a = ulp_expo b")
  case True
  then show ?thesis using assms(2) by (simp add: round_mag_grid round_grid_mono)
next
  case False
  have b: "0 < b" using assms by simp
  from False ulp_expo_mono [OF assms] have less: "ulp_expo a < ulp_expo b" by simp
  with ulp_expo_ge [of a] have eb: "ulp_expo b = expo b - 52" "- 1074 \<le> expo b"
    by (simp_all add: ulp_expo_def max_def split: if_splits)
  have "round_mag a \<le> 2 powi (ulp_expo a + 53)" using assms(1) by (rule round_mag_upper)
  also have "\<dots> \<le> 2 powi (expo b)" using less eb(1) by (intro pow2_mono) simp
  also have "\<dots> \<le> round_mag b" using b eb(2) by (rule round_mag_lower)
  finally show ?thesis .
qed

lemma round_mag_err: "\<bar>round_mag q - q\<bar> \<le> 2 powi (ulp_expo q - 1)"
proof -
  have "(2::rat) powi (ulp_expo q - 1) = 2 powi (ulp_expo q) / 2"
    by (simp add: power_int_diff)
  then show ?thesis using round_grid_err [of "ulp_expo q" q] by (simp add: round_mag_grid)
qed

lemma overflow_iff: "0 < m \<Longrightarrow> 1024 \<le> expo m \<longleftrightarrow> 2 ^ 1024 \<le> m"
proof
  assume m: "0 < m" and "1024 \<le> expo m"
  then have "(2::rat) powi 1024 \<le> 2 powi (expo m)" by (intro pow2_mono)
  also have "\<dots> \<le> m" using m by (rule expo_bounds)
  finally show "2 ^ 1024 \<le> m" by simp
next
  assume "2 ^ 1024 \<le> m"
  then have "(2::rat) powi 1024 \<le> m" by simp
  then show "1024 \<le> expo m" by (rule expo_ge)
qed

section \<open>Rounding: the Numbers\<close>

lemma js_round_pos:
  "0 < q \<Longrightarrow> js_round q =
     (if round_mag q = 0 then Num 0 else if 2 ^ 1024 \<le> round_mag q then PosInf
      else Num (round_mag q))"
  using round_mag_nonneg [of q] overflow_iff [of "round_mag q"]
  by (auto simp: js_round_def Let_def)

lemma js_round_neg:
  "q < 0 \<Longrightarrow> js_round q =
     (if round_mag (- q) = 0 then NegZero else if 2 ^ 1024 \<le> round_mag (- q) then NegInf
      else Num (- round_mag (- q)))"
  using round_mag_nonneg [of "- q"] overflow_iff [of "round_mag (- q)"]
  by (auto simp: js_round_def Let_def)

lemma representable_zero: "js_representable 0"
  by (simp add: js_representable_def js_round_def)

lemma representable_pos_iff:
  "0 < d \<Longrightarrow> js_representable d \<longleftrightarrow> round_mag d = d \<and> d < 2 ^ 1024"
  by (auto simp: js_representable_def js_round_pos)

lemma representable_neg_iff:
  "d < 0 \<Longrightarrow> js_representable d \<longleftrightarrow> round_mag (- d) = - d \<and> - d < 2 ^ 1024"
  by (auto simp: js_representable_def js_round_neg)

lemma representable_minus: "js_representable (- d) = js_representable d"
proof (cases "d = 0")
  case True
  then show ?thesis by simp
next
  case False
  then consider "0 < d" | "d < 0" by linarith
  then show ?thesis
    by cases (simp_all add: representable_pos_iff representable_neg_iff)
qed

lemma js_round_representable: "js_round q = Num d \<Longrightarrow> js_representable d"
proof -
  assume r: "js_round q = Num d"
  consider "q = 0" | "0 < q" | "q < 0" by linarith
  then show ?thesis
  proof cases
    case 1
    with r show ?thesis by (simp add: js_round_def representable_zero)
  next
    case 2
    show ?thesis
    proof (cases "round_mag q = 0")
      case True
      with 2 r show ?thesis by (simp add: js_round_pos representable_zero)
    next
      case False
      with round_mag_nonneg [OF 2] have m: "0 < round_mag q" by simp
      from r 2 False have d: "d = round_mag q" "round_mag q < 2 ^ 1024"
        by (simp_all add: js_round_pos split: if_splits)
      show ?thesis
        using m d round_mag_idem [OF 2 m] by (simp add: representable_pos_iff)
    qed
  next
    case 3
    then have p: "0 < - q" by simp
    show ?thesis
    proof (cases "round_mag (- q) = 0")
      case True
      with 3 r show ?thesis by (simp add: js_round_neg)
    next
      case False
      with round_mag_nonneg [OF p] have m: "0 < round_mag (- q)" by simp
      from r 3 False have d: "d = - round_mag (- q)" "round_mag (- q) < 2 ^ 1024"
        by (simp_all add: js_round_neg split: if_splits)
      have "js_representable (round_mag (- q))"
        using m d round_mag_idem [OF p m] by (simp add: representable_pos_iff)
      then show ?thesis by (simp add: d representable_minus)
    qed
  qed
qed

lemma representable_grid:
  assumes "0 < d" "on_grid k d" "- 1074 \<le> k" "d \<le> 2 powi (k + 53)" "d < 2 ^ 1024"
  shows "js_representable d"
  using assms round_mag_fix [OF assms(1-4)] by (simp add: representable_pos_iff)

lemma representable_on_grid: "js_representable d \<Longrightarrow> 0 < d \<Longrightarrow> on_grid (ulp_expo d) d"
proof -
  assume "js_representable d" "0 < d"
  then have "round_grid (ulp_expo d) d = d" by (simp add: representable_pos_iff round_mag_grid)
  then show ?thesis using round_grid_on_grid [of "ulp_expo d" d] by simp
qed

lemma on_grid_of_int: "on_grid 0 (of_int n)"
  by (rule on_gridI [of _ n]) simp

lemma representable_nat:
  assumes "0 < n" "n \<le> 2 ^ 53"
  shows "js_representable (of_int n)"
proof (rule representable_grid)
  show "0 < (of_int n :: rat)" using assms(1) by simp
  show "on_grid 0 (of_int n)" by (rule on_grid_of_int)
  show "- 1074 \<le> (0::int)" by simp
  have "(of_int n :: rat) \<le> of_int (2 ^ 53)" using assms(2) by (simp only: of_int_le_iff)
  then show "(of_int n :: rat) \<le> 2 powi (0 + 53)" by simp
  then show "(of_int n :: rat) < 2 ^ 1024" by simp
qed

lemma representable_int: "\<bar>n\<bar> \<le> 2 ^ 53 \<Longrightarrow> js_representable (of_int n)"
proof -
  assume n: "\<bar>n\<bar> \<le> 2 ^ 53"
  consider "n = 0" | "0 < n" | "n < 0" by linarith
  then show ?thesis
  proof cases
    case 1
    then show ?thesis by (simp add: representable_zero)
  next
    case 2
    with n show ?thesis by (simp add: representable_nat)
  next
    case 3
    with n have "js_representable (of_int (- n))" by (simp add: representable_nat del: of_int_minus)
    then show ?thesis by (simp add: representable_minus)
  qed
qed

lemma representable_half_nat:
  assumes "0 \<le> n" "n < 2 ^ 52"
  shows "js_representable (of_int n + 1 / 2)"
proof (rule representable_grid)
  have "(0::rat) \<le> of_int n" using assms(1) by simp
  then show "0 < (of_int n + 1 / 2 :: rat)" by linarith
  have "of_int n + 1 / 2 = (of_int (2 * n + 1) :: rat) * 2 powi (- 1)"
    by (simp add: power_int_minus field_simps)
  then show "on_grid (- 1) (of_int n + 1 / 2 :: rat)" by (rule on_gridI)
  show "- 1074 \<le> (- 1 :: int)" by simp
  have "n + 1 \<le> 2 ^ 52" using assms(2) by simp
  then have "(of_int (n + 1) :: rat) \<le> of_int (2 ^ 52)" by (simp only: of_int_le_iff)
  then have le: "(of_int n :: rat) + 1 \<le> 2 ^ 52" by simp
  then show "(of_int n + 1 / 2 :: rat) \<le> 2 powi (- 1 + 53)" by simp
  from le show "(of_int n + 1 / 2 :: rat) < 2 ^ 1024" by simp
qed

lemma representable_lt_max: "js_representable d \<Longrightarrow> d < 2 ^ 1024"
proof -
  assume r: "js_representable d"
  show ?thesis
  proof (cases "0 < d")
    case True
    with r show ?thesis by (simp add: representable_pos_iff)
  next
    case False
    then have "d \<le> 0" by simp
    also have "(0::rat) < 2 ^ 1024" by simp
    finally show ?thesis .
  qed
qed

lemma representable_gt_one:
  assumes "js_representable f" "1 < f"
  shows "1 + 1 / 2 ^ 52 \<le> f"
proof -
  have f: "0 < f" using assms(2) by simp
  have "0 \<le> expo f" using assms(2) by (intro expo_ge) simp
  then have "- 52 \<le> ulp_expo f" by (simp add: ulp_expo_def)
  then have "on_grid (- 52) f"
    using representable_on_grid [OF assms(1) f] by (rule on_grid_finer)
  moreover have "on_grid (- 52) 1"
    using on_grid_pow [of "- 52" 0] by simp
  ultimately have "1 + 2 powi (- 52) \<le> f"
    using assms(2) by (intro on_grid_less_le)
  then show ?thesis by (simp add: power_int_minus field_simps)
qed

lemma round_mag_int:
  assumes "0 < n"
  shows "\<exists>m. round_mag (of_int n) = of_int m"
proof (cases "0 \<le> ulp_expo (of_int n :: rat)")
  case True
  then have "round_mag (of_int n) =
      of_int (round_half_even (of_int n / 2 powi ulp_expo (of_int n)) * 2 ^ nat (ulp_expo (of_int n :: rat)))"
    by (simp add: round_mag_def pow2_nat)
  then show ?thesis ..
next
  case False
  then have "ulp_expo (of_int n :: rat) \<le> 0" by simp
  then have "on_grid (ulp_expo (of_int n :: rat)) (of_int n)"
    using on_grid_of_int by (rule on_grid_finer)
  then have "round_mag (of_int n) = of_int n"
    by (simp add: round_mag_grid round_grid_fix)
  then show ?thesis ..
qed

lemma round_mag_int_ge_one:
  assumes "0 < n"
  shows "1 \<le> round_mag (of_int n)"
proof -
  have q: "(0::rat) < of_int n" using assms by simp
  have "(1::rat) \<le> of_int n" using assms by simp
  then have e: "0 \<le> expo (of_int n :: rat)" by (intro expo_ge) simp
  then have "(2::rat) powi 0 \<le> 2 powi expo (of_int n :: rat)" by (rule pow2_mono)
  also have "\<dots> \<le> round_mag (of_int n)" using q e by (intro round_mag_lower) simp_all
  finally show ?thesis by simp
qed

section \<open>Integer-valued Numbers\<close>

lemma whole_not_NaN: "js_whole x \<Longrightarrow> x \<noteq> NaN"
  by (cases x) simp_all

lemma whole_round_nat:
  assumes "0 < n"
  shows "js_round (of_int n) = PosInf \<or>
    (\<exists>m. js_round (of_int n) = Num (of_int m) \<and> 0 < m \<and> js_representable (of_int m))"
proof -
  have q: "(0::rat) < of_int n" using assms by simp
  from round_mag_int [OF assms] obtain m where m: "round_mag (of_int n) = of_int m" ..
  from round_mag_int_ge_one [OF assms] m have pos: "0 < m" by simp
  show ?thesis
  proof (cases "2 ^ 1024 \<le> round_mag (of_int n)")
    case True
    with q m pos show ?thesis by (simp add: js_round_pos)
  next
    case False
    with q m pos have r: "js_round (of_int n) = Num (of_int m)" by (simp add: js_round_pos)
    then have "js_representable (of_int m)" by (rule js_round_representable)
    with r pos show ?thesis by blast
  qed
qed

lemma js_round_minus_nat:
  assumes "0 < n"
  shows "js_round (of_int (- n)) = js_neg (js_round (of_int n))"
proof -
  have q: "(0::rat) < of_int n" using assms by simp
  from round_mag_int_ge_one [OF assms] have "round_mag (of_int n) \<noteq> 0" by simp
  with q show ?thesis by (simp add: js_round_pos js_round_neg)
qed

lemma floor_minus_int: "of_int \<lfloor>a\<rfloor> = a \<Longrightarrow> of_int \<lfloor>- a\<rfloor> = - (a::rat)"
  by (metis floor_of_int of_int_minus)

lemma whole_neg: "js_whole x \<Longrightarrow> x \<noteq> Num 0 \<Longrightarrow> js_whole (js_neg x)"
proof (cases x)
  case (Num a)
  assume "js_whole x" "x \<noteq> Num 0"
  with Num have "of_int \<lfloor>a\<rfloor> = a" "js_representable a" "a \<noteq> 0" by simp_all
  with Num show ?thesis
    using floor_minus_int [of a] by (simp add: representable_minus del: of_int_floor_cancel)
qed simp_all

lemma whole_round_int: "js_whole (js_round (of_int n))"
proof -
  consider "n = 0" | "0 < n" | "n < 0" by linarith
  then show ?thesis
  proof cases
    case 1
    then show ?thesis by (simp add: js_round_def representable_zero)
  next
    case 2
    from whole_round_nat [OF 2] show ?thesis by auto
  next
    case 3
    then have p: "0 < - n" by simp
    from whole_round_nat [OF p] have "js_whole (js_neg (js_round (of_int (- n))))"
      by (auto simp: representable_minus)
    then show ?thesis using js_round_minus_nat [OF p] by simp
  qed
qed

lemma whole_add_int: "z \<noteq> NaN \<Longrightarrow> js_whole (js_add (js_floor z) (Num (of_int c)))"
proof (cases z)
  case (Num b)
  have "js_whole (js_round (of_int (\<lfloor>b\<rfloor> + c)))" by (rule whole_round_int)
  with Num show ?thesis by (simp add: js_add_def)
next
  case NegZero
  have "js_whole (js_round (of_int c))" by (rule whole_round_int)
  with NegZero show ?thesis by (simp add: js_add_def)
qed (simp_all add: js_add_def)

lemma whole_up_step: "x \<noteq> NaN \<Longrightarrow> f \<noteq> 0 \<Longrightarrow> js_whole (up_step (Num f) x)"
  using whole_add_int [of "js_mul x (Num f)" 1] by (simp add: up_step_def js_mul_not_NaN)

lemma whole_down_step: "x \<noteq> NaN \<Longrightarrow> f \<noteq> 0 \<Longrightarrow> js_whole (down_step (Num f) x)"
  using whole_add_int [of "js_div x (Num f)" "- 1"]
  by (simp add: down_step_def js_sub_def js_div_not_NaN)

lemma whole_floor_div_one: "js_whole x \<Longrightarrow> js_floor (js_div x (Num 1)) = x"
proof (cases x)
  case (Num a)
  assume "js_whole x"
  with Num have a: "of_int \<lfloor>a\<rfloor> = a" "js_round a = Num a"
    by (simp_all add: js_representable_def)
  with Num show ?thesis by (simp add: js_div_def signed_zero_def)
qed (simp_all add: js_div_def signed_inf_def)

lemma representable_floor_mul_one:
  "js_representable (of_int r) \<Longrightarrow> js_floor (js_mul (Num (of_int r)) (Num 1)) = Num (of_int r)"
  by (simp add: js_mul_def signed_zero_def js_representable_def)

lemma propagate_whole:
  assumes "1 \<le> s" "s \<le> 4" "q \<noteq> 0" "js_whole v" "k < 4"
  shows "js_whole (calculateBaseSpeeds s v (Num q) ! k)"
proof -
  have k: "k = 0 \<or> k = 1 \<or> k = 2 \<or> k = 3" using assms(5) by arith
  have v: "v \<noteq> NaN" using assms(4) by (rule whole_not_NaN)
  show ?thesis
    using slot_cases [OF assms(1,2)] k assms(3,4) v
    by (elim disjE)
       (simp_all add: propagate_at whole_up_step whole_down_step up_step_not_NaN down_step_not_NaN)
qed

section \<open>The upward step grows\<close>

lemma js_round_ge:
  assumes "0 < c" "c \<le> a" "round_mag c = c"
  shows "js_round a = PosInf \<or> (\<exists>d. js_round a = Num d \<and> c \<le> d)"
proof -
  have a: "0 < a" using assms(1,2) by simp
  have "round_mag c \<le> round_mag a" using assms(1,2) by (rule round_mag_mono)
  with assms(3) have m: "c \<le> round_mag a" by simp
  with assms(1) have "round_mag a \<noteq> 0" by simp
  with a m show ?thesis by (simp add: js_round_pos)
qed

lemma js_round_overflow: "2 ^ 1024 \<le> q \<Longrightarrow> js_round q = PosInf"
proof -
  assume q: "2 ^ 1024 \<le> q"
  have "round_mag (2 powi 1024) = 2 powi 1024"
  proof (rule round_mag_fix)
    show "on_grid 971 ((2::rat) powi 1024)" by (rule on_grid_pow) simp
    show "(2::rat) powi 1024 \<le> 2 powi (971 + 53)" by simp
  qed simp_all
  moreover have "(0::rat) < 2 powi 1024" "(2::rat) powi 1024 \<le> q" using q by simp_all
  ultimately have "js_round q = PosInf \<or> (\<exists>d. js_round q = Num d \<and> 2 powi 1024 \<le> d)"
    by (intro js_round_ge)
  moreover have "\<not> (\<exists>d. js_round q = Num d \<and> 2 powi 1024 \<le> d)"
  proof
    assume "\<exists>d. js_round q = Num d \<and> 2 powi 1024 \<le> d"
    then obtain d where d: "js_round q = Num d" "2 powi 1024 \<le> d" by blast
    from d(1) have "js_representable d" by (rule js_round_representable)
    then have "d < 2 ^ 1024" by (rule representable_lt_max)
    with d(2) show False by simp
  qed
  ultimately show ?thesis by blast
qed

lemma representable_round_mag: "js_representable d \<Longrightarrow> 0 < d \<Longrightarrow> round_mag d = d"
  by (simp add: representable_pos_iff)

lemma js_round_one: "js_round 1 = Num 1"
  using representable_int [of 1] by (simp add: js_representable_def)

lemma successor_le_product:
  assumes "js_representable a" "1 \<le> a" "js_representable f" "1 < f"
  shows "a + 2 powi (ulp_expo a) \<le> a * f"
    and "round_mag (a + 2 powi (ulp_expo a)) = a + 2 powi (ulp_expo a)"
proof -
  have a: "0 < a" using assms(2) by simp
  have e: "0 \<le> expo a" using assms(2) by (intro expo_ge) simp
  then have k: "ulp_expo a = expo a - 52" by (simp add: ulp_expo_def)
  have "2 powi (expo a) \<le> a" using a by (rule expo_bounds)
  then have "2 powi (expo a) * (1 / 2 ^ 52) \<le> a * (1 / 2 ^ 52)"
    by (intro mult_right_mono) simp_all
  moreover have "(2::rat) powi (expo a - 52) = 2 powi (expo a) * (1 / 2 ^ 52)"
    by (simp add: power_int_diff)
  ultimately have "2 powi (ulp_expo a) \<le> a * (1 / 2 ^ 52)" by (simp add: k)
  moreover have "a * (1 + 1 / 2 ^ 52) \<le> a * f"
    using representable_gt_one [OF assms(3,4)] a by (intro mult_left_mono) simp_all
  ultimately show "a + 2 powi (ulp_expo a) \<le> a * f" by (simp add: algebra_simps)
  have g: "on_grid (ulp_expo a) a" using assms(1) a by (rule representable_on_grid)
  have p: "on_grid (ulp_expo a) (2 powi (ulp_expo a + 53))" by (rule on_grid_pow) simp
  have "a < 2 powi (expo a + 1)" using a by (rule expo_bounds)
  moreover have "ulp_expo a + 53 = expo a + 1" by (simp add: k)
  ultimately have "a < 2 powi (ulp_expo a + 53)" by (simp only:)
  with g p have le: "a + 2 powi (ulp_expo a) \<le> 2 powi (ulp_expo a + 53)"
    by (rule on_grid_less_le)
  show "round_mag (a + 2 powi (ulp_expo a)) = a + 2 powi (ulp_expo a)"
  proof (rule round_mag_fix)
    show "0 < a + 2 powi (ulp_expo a)" using a by (simp add: add_pos_pos)
    show "on_grid (ulp_expo a) (a + 2 powi (ulp_expo a))"
      using g by (rule on_grid_add) (rule on_grid_pow, simp)
    show "- 1074 \<le> ulp_expo a" by (rule ulp_expo_ge)
    show "a + 2 powi (ulp_expo a) \<le> 2 powi (ulp_expo a + 53)" by (rule le)
  qed
qed

lemma up_step_zero: "0 < f \<Longrightarrow> up_step (Num f) (Num 0) = Num 1"
  by (simp add: up_step_def js_mul_def js_add_def signed_zero_def js_round_one)

lemma up_step_PosInf: "0 < f \<Longrightarrow> up_step (Num f) PosInf = PosInf"
  by (simp add: up_step_def js_mul_def js_add_def signed_inf_def)

lemma up_step_greater:
  assumes "js_representable a" "1 \<le> a" "js_representable f" "1 < f"
  shows "up_step (Num f) (Num a) = PosInf \<or>
    (\<exists>b. up_step (Num f) (Num a) = Num b \<and> a < b \<and> js_representable b)"
proof -
  let ?c = "a + 2 powi (ulp_expo a)"
  have a: "0 < a" and f: "0 < f" using assms(2,4) by simp_all
  have c: "0 < ?c" "a < ?c" using a by (simp_all add: add_pos_pos)
  have m: "js_mul (Num a) (Num f) = js_round (a * f)"
    using a f by (simp add: js_mul_def)
  from js_round_ge [OF c(1) successor_le_product [OF assms]]
  consider "js_round (a * f) = PosInf" | d where "js_round (a * f) = Num d" "?c \<le> d"
    by blast
  then show ?thesis
  proof cases
    case 1
    then show ?thesis by (simp add: up_step_def m js_add_def)
  next
    case 2
    have d: "0 < d" using c(1) 2(2) by simp
    have "js_representable d" using 2(1) by (rule js_round_representable)
    then have rd: "round_mag d = d" using d by (rule representable_round_mag)
    have "d \<le> of_int \<lfloor>d\<rfloor> + 1" by linarith
    from js_round_ge [OF d this rd]
    consider "js_round (of_int \<lfloor>d\<rfloor> + 1) = PosInf"
      | b where "js_round (of_int \<lfloor>d\<rfloor> + 1) = Num b" "d \<le> b"
      by blast
    then show ?thesis
    proof cases
      case 1
      with 2(1) show ?thesis by (simp add: up_step_def m js_add_def)
    next
      case 2
      note b = this
      have "js_representable b" using b(1) by (rule js_round_representable)
      moreover have "a < b" using c(2) \<open>?c \<le> d\<close> b(2) by linarith
      ultimately show ?thesis
        using \<open>js_round (a * f) = Num d\<close> b(1) by (simp add: up_step_def m js_add_def)
    qed
  qed
qed

lemma upward_up_step:
  assumes "js_upward x" "js_representable f" "1 < f"
  shows "js_upward (up_step (Num f) x)"
    and "x \<noteq> PosInf \<Longrightarrow> js_gt (up_step (Num f) x) x"
    and "x = PosInf \<Longrightarrow> up_step (Num f) x = PosInf"
proof -
  have f: "0 < f" using assms(3) by simp
  have "js_upward (up_step (Num f) x) \<and> (x \<noteq> PosInf \<longrightarrow> js_gt (up_step (Num f) x) x)"
  proof (cases x)
    case (Num a)
    with assms(1) have r: "js_representable a" and a: "a = 0 \<or> 1 \<le> a" by simp_all
    from a show ?thesis
    proof
      assume "a = 0"
      with Num f show ?thesis
        using representable_int [of 1]
        by (simp add: up_step_zero js_gt_def js_lt_def)
    next
      assume a1: "1 \<le> a"
      from up_step_greater [OF r a1 assms(2,3)] Num a1 show ?thesis
        by (auto simp: js_gt_def js_lt_def)
    qed
  next
    case PosInf
    with f show ?thesis by (simp add: up_step_PosInf)
  qed (use assms(1) in simp_all)
  then show "js_upward (up_step (Num f) x)"
    and "x \<noteq> PosInf \<Longrightarrow> js_gt (up_step (Num f) x) x"
    by simp_all
  show "x = PosInf \<Longrightarrow> up_step (Num f) x = PosInf"
    using f by (simp add: up_step_PosInf)
qed

lemma propagate_upward:
  assumes "1 \<le> s" "s \<le> 4" "js_representable f" "1 < f" "js_upward v" "1 \<le> k" "k \<le> s"
  shows "js_upward (calculateBaseSpeeds s v (Num f) ! nat (k - 1))"
proof -
  have k: "k = 1 \<or> k = 2 \<or> k = 3 \<or> k = 4" using assms by arith
  note up = upward_up_step(1) [OF _ assms(3,4)]
  show ?thesis
    using slot_cases [OF assms(1,2)] k assms(5,7)
    by (elim disjE) (simp_all add: propagate_at up)
qed

section \<open>The error of a division followed by a multiplication\<close>

lemma round_mag_rel_err:
  assumes "0 < q" "ulp_expo q = expo q - 52"
  shows "\<bar>round_mag q - q\<bar> \<le> q / 2 ^ 53"
proof -
  have "\<bar>round_mag q - q\<bar> \<le> 2 powi (ulp_expo q - 1)" by (rule round_mag_err)
  also have "ulp_expo q - 1 = expo q - 53" using assms(2) by simp
  also have "(2::rat) powi (expo q - 53) = 2 powi (expo q) / 2 ^ 53"
    by (simp add: power_int_diff)
  also have "\<dots> \<le> q / 2 ^ 53"
    using expo_bounds(1) [OF assms(1)] by (simp add: divide_right_mono)
  finally show ?thesis .
qed

lemma round_mag_upper_rel:
  assumes "0 < q" "1 \<le> round_mag q"
  shows "round_mag q \<le> q * (1 + 1 / 2 ^ 53)"
proof -
  have "\<not> ulp_expo q + 53 < 0"
  proof
    assume "ulp_expo q + 53 < 0"
    then have "ulp_expo q + 53 \<le> - 1" by simp
    then have "(2::rat) powi (ulp_expo q + 53) \<le> 2 powi (- 1)" by (rule pow2_mono)
    with round_mag_upper [OF assms(1)] assms(2) show False by simp
  qed
  then have "ulp_expo q = expo q - 52" by (simp add: ulp_expo_def max_def split: if_splits)
  with assms(1) have "\<bar>round_mag q - q\<bar> \<le> q / 2 ^ 53" by (rule round_mag_rel_err)
  then have "round_mag q \<le> q + q / 2 ^ 53" by linarith
  moreover have "q * (1 + 1 / 2 ^ 53) = q + q / 2 ^ 53" by (simp only: distrib_left mult_1_right times_divide_eq_right)
  ultimately show ?thesis by (simp only:)
qed

lemma round_mag_lower_rel:
  assumes "1 \<le> q"
  shows "q * (1 - 1 / 2 ^ 53) \<le> round_mag q"
proof -
  have q: "0 < q" using assms by simp
  have "0 \<le> expo q" using assms by (intro expo_ge) simp
  then have "ulp_expo q = expo q - 52" by (simp add: ulp_expo_def)
  with q have "\<bar>round_mag q - q\<bar> \<le> q / 2 ^ 53" by (rule round_mag_rel_err)
  then have "q - q / 2 ^ 53 \<le> round_mag q" by linarith
  moreover have "q * (1 - 1 / 2 ^ 53) = q - q / 2 ^ 53"
    by (simp only: right_diff_distrib mult_1_right times_divide_eq_right)
  ultimately show ?thesis by (simp only:)
qed

lemma js_round_le:
  assumes "0 < a" "a \<le> c" "js_representable c"
  shows "\<exists>d. js_round a = Num d \<and> d \<le> c"
proof -
  have c: "0 < c" using assms(1,2) by simp
  with assms(3) have "round_mag c = c" "c < 2 ^ 1024" by (simp_all add: representable_pos_iff)
  with round_mag_mono [OF assms(1,2)] have "round_mag a \<le> c" "round_mag a < 2 ^ 1024" by simp_all
  with assms(1) c show ?thesis by (simp add: js_round_pos)
qed

lemma js_round_le_neg:
  assumes "a \<le> c" "c < 0" "js_representable c"
  shows "js_round a = NegInf \<or> (\<exists>d. js_round a = Num d \<and> d \<le> c)"
proof -
  have a: "a < 0" using assms(1,2) by simp
  have "js_representable (- c)" using assms(3) by (simp add: representable_minus)
  then have "round_mag (- c) = - c" using assms(2) by (simp add: representable_pos_iff)
  moreover have "round_mag (- c) \<le> round_mag (- a)"
    using assms(1,2) by (intro round_mag_mono) simp_all
  ultimately have m: "- c \<le> round_mag (- a)" by simp
  with assms(2) have "round_mag (- a) \<noteq> 0" by simp
  with a m show ?thesis by (simp add: js_round_neg)
qed

lemma half_representable:
  assumes "\<bar>n\<bar> < 2 ^ 52"
  shows "js_representable (of_int n + 1 / 2)"
proof (cases "0 \<le> n")
  case True
  with assms show ?thesis by (intro representable_half_nat) simp_all
next
  case False
  with assms have "js_representable (of_int (- n - 1) + 1 / 2)"
    by (intro representable_half_nat) simp_all
  moreover have "(of_int (- n - 1) + 1 / 2 :: rat) = - (of_int n + 1 / 2)" by simp
  ultimately show ?thesis by (simp only: representable_minus)
qed

lemma floor_le_half: "d \<le> of_int n + 1 / 2 \<Longrightarrow> \<lfloor>d::rat\<rfloor> \<le> n"
proof -
  assume "d \<le> of_int n + 1 / 2"
  then have "d < of_int (n + 1)" by simp
  then have "\<lfloor>d\<rfloor> < n + 1" by (simp only: floor_less_iff)
  then show ?thesis by simp
qed

lemma js_le_Num: "js_le (Num x) (Num y) \<longleftrightarrow> x \<le> y"
  by (auto simp: js_le_def js_lt_def js_eq_def)

lemma js_le_NegInf: "js_le NegInf (Num y)"
  by (simp add: js_le_def js_lt_def)

lemma floor_round_le:
  assumes "0 < a" "a \<le> of_int n + 1 / 2" "\<bar>n\<bar> < 2 ^ 52"
  shows "js_le (js_floor (js_round a)) (Num (of_int n))"
proof -
  from js_round_le [OF assms(1,2) half_representable [OF assms(3)]]
  obtain d where d: "js_round a = Num d" "d \<le> of_int n + 1 / 2" by blast
  from d(2) have "\<lfloor>d\<rfloor> \<le> n" by (rule floor_le_half)
  then have "(of_int \<lfloor>d\<rfloor> :: rat) \<le> of_int n" by (simp only: of_int_le_iff)
  with d(1) show ?thesis by (simp add: js_le_Num del: of_int_le_iff)
qed

lemma floor_round_le_neg:
  assumes "a \<le> of_int n + 1 / 2" "n < 0" "\<bar>n\<bar> < 2 ^ 52"
  shows "js_le (js_floor (js_round a)) (Num (of_int n))"
proof -
  have "n \<le> - 1" using assms(2) by simp
  then have "(of_int n :: rat) \<le> of_int (- 1)" by (simp only: of_int_le_iff)
  then have "(of_int n :: rat) \<le> - 1" by simp
  then have c: "(of_int n + 1 / 2 :: rat) < 0" by simp
  from js_round_le_neg [OF assms(1) c half_representable [OF assms(3)]]
  show ?thesis
  proof
    assume "js_round a = NegInf"
    then show ?thesis by (simp add: js_le_NegInf)
  next
    assume "\<exists>d. js_round a = Num d \<and> d \<le> of_int n + 1 / 2"
    then obtain d where d: "js_round a = Num d" "d \<le> of_int n + 1 / 2" by blast
    from d(2) have "\<lfloor>d\<rfloor> \<le> n" by (rule floor_le_half)
    then have "(of_int \<lfloor>d\<rfloor> :: rat) \<le> of_int n" by (simp only: of_int_le_iff)
    with d(1) show ?thesis by (simp add: js_le_Num del: of_int_le_iff)
  qed
qed

lemma roundtrip_zero:
  "0 < b \<Longrightarrow> js_floor (js_mul (js_floor (js_div (Num 0) (Num b))) (Num b)) = Num 0"
  by (simp add: js_div_def js_mul_def signed_zero_def)

lemma roundtrip_pos:
  assumes "0 < n" "n < 2 ^ 52" "0 < b"
    and "js_floor (js_div (Num (of_int n)) (Num b)) \<noteq> PosInf"
  shows "js_le (js_floor (js_mul (js_floor (js_div (Num (of_int n)) (Num b))) (Num b)))
           (Num (of_int n))"
proof -
  let ?a = "of_int n :: rat"
  let ?q = "?a / b"
  have a: "0 < ?a" using assms(1) by simp
  have q: "0 < ?q" using a assms(3) by simp
  have dv: "js_div (Num ?a) (Num b) = js_round ?q"
    using a assms(3) by (simp add: js_div_def)
  have zero: "js_le (js_floor (js_mul (Num 0) (Num b))) (Num ?a)"
    using a assms(3) by (simp add: js_mul_def signed_zero_def js_le_Num)
  have abs: "\<bar>n\<bar> < 2 ^ 52" using assms(1,2) by simp
  show ?thesis
  proof (cases "round_mag ?q = 0")
    case True
    with q have "js_round ?q = Num 0" by (simp add: js_round_pos)
    with zero show ?thesis by (simp add: dv)
  next
    case False
    with assms(4) q have r: "js_round ?q = Num (round_mag ?q)"
      by (simp add: dv js_round_pos split: if_splits)
    let ?m = "round_mag ?q"
    let ?N = "\<lfloor>?m\<rfloor>"
    have fl: "js_floor (js_div (Num ?a) (Num b)) = Num (of_int ?N)" by (simp add: dv r)
    have m0: "0 \<le> ?m" using q by (rule round_mag_nonneg)
    show ?thesis
    proof (cases "?N = 0")
      case True
      with zero show ?thesis by (simp add: fl)
    next
      case False
      have "0 \<le> ?N" using m0 by (simp only: zero_le_floor)
      with False have N: "1 \<le> ?N" by linarith
      then have "(1::rat) \<le> of_int ?N" by (simp only: of_int_le_iff [symmetric] of_int_1)
      also have "of_int ?N \<le> ?m" by simp
      finally have m1: "1 \<le> ?m" .
      have "?m \<le> ?q * (1 + 1 / 2 ^ 53)" using q m1 by (rule round_mag_upper_rel)
      then have "?m * b \<le> ?q * (1 + 1 / 2 ^ 53) * b"
        using assms(3) by (intro mult_right_mono) simp_all
      also have "?q * (1 + 1 / 2 ^ 53) * b = ?a + ?a / 2 ^ 53"
        using assms(3) by (simp add: field_simps)
      finally have mb: "?m * b \<le> ?a + ?a / 2 ^ 53" .
      have "of_int ?N * b \<le> ?m * b" using assms(3) by (intro mult_right_mono) simp_all
      moreover have "?a / 2 ^ 53 \<le> 1 / 2"
      proof -
        have "n \<le> 2 ^ 52" using assms(2) by simp
        then have "?a \<le> of_int (2 ^ 52)" by (simp only: of_int_le_iff)
        then show ?thesis by simp
      qed
      ultimately have le: "of_int ?N * b \<le> ?a + 1 / 2" using mb by linarith
      have pos: "0 < of_int ?N * b" using N assms(3) by simp
      have ml: "js_mul (Num (of_int ?N)) (Num b) = js_round (of_int ?N * b)"
        using False assms(3) by (simp add: js_mul_def)
      from floor_round_le [OF pos le abs] show ?thesis by (simp only: fl ml)
    qed
  qed
qed

lemma roundtrip_neg:
  assumes "n < 0" "- (2 ^ 52) < n" "0 < b" "js_representable b"
  shows "js_le (js_floor (js_mul (js_floor (js_div (Num (of_int n)) (Num b))) (Num b)))
           (Num (of_int n))"
proof -
  let ?a = "of_int n :: rat"
  let ?q = "- ?a / b"
  have n1: "n \<le> - 1" using assms(1) by simp
  then have "?a \<le> of_int (- 1)" by (simp only: of_int_le_iff)
  then have a1: "?a \<le> - 1" by simp
  then have a: "?a < 0" by simp
  then have "0 < - ?a" by simp
  then have q: "0 < ?q" using assms(3) by (rule divide_pos_pos)
  have abs: "\<bar>n\<bar> < 2 ^ 52" using assms(1,2) by simp
  have "js_div (Num ?a) (Num b) = js_round (?a / b)"
    using a assms(3) by (simp add: js_div_def)
  moreover have "?a / b = - ?q" by simp
  ultimately have dv: "js_div (Num ?a) (Num b) = js_round (- ?q)" by (simp only:)
  have nq: "- ?q < 0" using q by simp
  let ?m = "round_mag ?q"
  have m0: "0 < ?m"
  proof -
    have "b < 2 ^ 1024" using assms(4) by (rule representable_lt_max)
    then have "1 / 2 ^ 1024 < 1 / b" using assms(3) by (simp add: field_simps)
    also have "1 / b \<le> ?q"
    proof -
      have "1 \<le> - ?a" using a1 by simp
      then show ?thesis using assms(3) by (intro divide_right_mono) simp_all
    qed
    finally have "(2::rat) powi (- 1024) \<le> ?q" by (simp add: power_int_minus field_simps)
    then have e: "- 1024 \<le> expo ?q" by (rule expo_ge)
    have "(0::rat) < 2 powi (expo ?q)" by simp
    also have "\<dots> \<le> ?m" using q e by (intro round_mag_lower) simp_all
    finally show ?thesis .
  qed
  show ?thesis
  proof (cases "2 ^ 1024 \<le> ?m")
    case True
    with m0 nq have "js_round (- ?q) = NegInf" by (simp add: js_round_neg)
    then have "js_div (Num ?a) (Num b) = NegInf" by (simp only: dv)
    then show ?thesis
      using assms(3) by (simp add: js_mul_def signed_inf_def js_le_NegInf)
  next
    case False
    with m0 nq have r: "js_round (- ?q) = Num (- ?m)" by (simp add: js_round_neg)
    let ?N = "\<lfloor>- ?m\<rfloor>"
    have fl: "js_floor (js_div (Num ?a) (Num b)) = Num (of_int ?N)"
      by (simp only: dv r js_floor.simps)
    have Nm: "of_int ?N \<le> - ?m" by (rule of_int_floor_le)
    with m0 have "(of_int ?N :: rat) < of_int 0" by simp
    then have N: "?N < 0" by (simp only: of_int_less_iff)
    then have "?N \<le> - 1" by linarith
    then have "(of_int ?N :: rat) \<le> of_int (- 1)" by (simp only: of_int_le_iff)
    then have N1: "(of_int ?N :: rat) \<le> - 1" by simp
    have le: "of_int ?N * b \<le> ?a + 1 / 2"
    proof (cases "- ?a \<le> b")
      case True
      have "of_int ?N * b \<le> (- 1) * b" using N1 assms(3) by (intro mult_right_mono) simp_all
      with True show ?thesis by simp
    next
      case False
      then have "1 \<le> ?q" using assms(3) by (simp add: field_simps)
      then have "?q * (1 - 1 / 2 ^ 53) \<le> ?m" by (rule round_mag_lower_rel)
      then have "?q * (1 - 1 / 2 ^ 53) * b \<le> ?m * b"
        using assms(3) by (intro mult_right_mono) simp_all
      moreover have "?q * (1 - 1 / 2 ^ 53) * b = - ?a + ?a / 2 ^ 53"
        using assms(3) by (simp add: field_simps)
      ultimately have mb: "- ?a + ?a / 2 ^ 53 \<le> ?m * b" by simp
      have "- (1 / 2) \<le> ?a / 2 ^ 53"
      proof -
        have "- (2 ^ 52) \<le> n" using assms(2) by simp
        then have "of_int (- (2 ^ 52)) \<le> ?a" by (simp only: of_int_le_iff)
        then show ?thesis by simp
      qed
      with mb have "- ?a - 1 / 2 \<le> ?m * b" by linarith
      moreover have "of_int ?N * b \<le> (- ?m) * b"
        using Nm assms(3) by (intro mult_right_mono) simp_all
      ultimately show ?thesis by simp
    qed
    have "?N \<noteq> 0" using N by linarith
    then have ml: "js_mul (Num (of_int ?N)) (Num b) = js_round (of_int ?N * b)"
      using assms(3) by (simp add: js_mul_def)
    from floor_round_le_neg [OF le assms(1) abs] show ?thesis by (simp only: fl ml)
  qed
qed

lemma roundtrip_le:
  assumes "\<bar>n\<bar> < 2 ^ 52" "0 < b" "js_representable b"
    and "js_floor (js_div (Num (of_int n)) (Num b)) \<noteq> PosInf"
  shows "js_le (js_floor (js_mul (js_floor (js_div (Num (of_int n)) (Num b))) (Num b)))
           (Num (of_int n))"
proof -
  consider "n = 0" | "0 < n" | "n < 0" by linarith
  then show ?thesis
  proof cases
    case 1
    with assms(2) show ?thesis by (simp add: roundtrip_zero js_le_Num)
  next
    case 2
    with assms show ?thesis by (intro roundtrip_pos) simp_all
  next
    case 3
    with assms show ?thesis by (intro roundtrip_neg) simp_all
  qed
qed

lemma propagate_whole_off_anchor:
  assumes "1 \<le> s" "s \<le> 4" "q \<noteq> 0" "v \<noteq> NaN" "k < 4" "int k \<noteq> s - 1"
  shows "js_whole (calculateBaseSpeeds s v (Num q) ! k)"
proof -
  have k: "k = 0 \<or> k = 1 \<or> k = 2 \<or> k = 3" using assms(5) by arith
  show ?thesis
    using slot_cases [OF assms(1,2)] k assms(3,4,6)
    by (elim disjE)
       (simp_all add: propagate_at whole_up_step whole_down_step up_step_not_NaN down_step_not_NaN)
qed

lemma whole_bounded:
  assumes "js_whole x" "js_lt (Num (- (2 ^ 52))) x" "js_lt x (Num (2 ^ 52))"
  shows "\<exists>n. x = Num (of_int n) \<and> \<bar>n\<bar> < 2 ^ 52"
proof (cases x)
  case (Num a)
  with assms(1) have "of_int \<lfloor>a\<rfloor> = a" by simp
  then obtain n :: int where a: "a = of_int n" by metis
  from Num assms(2,3) have "- (2 ^ 52) < a" "a < 2 ^ 52" by (simp_all add: js_lt_def)
  then have "(of_int (- (2 ^ 52)) :: rat) < of_int n" "(of_int n :: rat) < of_int (2 ^ 52)"
    by (simp_all add: a)
  then have "- (2 ^ 52) < n" "n < 2 ^ 52" by (simp_all only: of_int_less_iff)
  then have "\<bar>n\<bar> < 2 ^ 52" by simp
  with Num a show ?thesis by blast
qed (use assms in \<open>simp_all add: js_lt_def\<close>)

section \<open>Properties of the Threshold Propagator\<close>

text \<open>
  In the statements below a slot \<open>i\<close> of the party, counted from 1 as the program's
  \<^verbatim>\<open>position\<close> is, sits at index \<open>nat (i - 1)\<close> of the returned list. The anchor value
  is a non-negative integer \<open>v\<close>, the factor a rational \<open>f\<close> above 1. The operations in
  the statements are the program's own: \<open>js_mul\<close>, \<open>js_div\<close>, \<open>js_add\<close> and \<open>js_sub\<close>
  round as the operators \<^verbatim>\<open>*\<close>, \<^verbatim>\<open>/\<close>, \<^verbatim>\<open>+\<close> and \<^verbatim>\<open>-\<close> do, and \<open>js_eq\<close> is \<^verbatim>\<open>===\<close>.
\<close>

text \<open>
  Claim C1. For every anchor slot \<open>s\<close> in 1..4, every factor \<open>f > 1\<close> and every
  non-negative integer anchor value \<open>v\<close>, each slot \<open>i < s\<close> of the array returned by
  \<^verbatim>\<open>calculateBaseSpeeds\<close> holds \<^verbatim>\<open>Math.floor(out[i+1] * f) + 1\<close>.
\<close>

theorem upward_pass_recurrence:
  assumes "1 \<le> s" "s \<le> 4" "1 < f" "0 \<le> v" "1 \<le> i" "i < s"
  shows "js_eq (calculateBaseSpeeds s (Num (of_int v)) (Num f) ! nat (i - 1))
           (js_add (js_floor (js_mul (calculateBaseSpeeds s (Num (of_int v)) (Num f) ! nat i) (Num f)))
              (Num 1))"
proof -
  have "nat (i - 1) < 4" using assms by arith
  moreover have "f \<noteq> 0" using assms by simp
  ultimately have "calculateBaseSpeeds s (Num (of_int v)) (Num f) ! nat (i - 1) \<noteq> NaN"
    using assms(1,2) by (simp add: propagate_not_NaN)
  then have "js_eq (calculateBaseSpeeds s (Num (of_int v)) (Num f) ! nat (i - 1))
      (calculateBaseSpeeds s (Num (of_int v)) (Num f) ! nat (i - 1))"
    by (rule js_eq_refl)
  then show ?thesis
    using propagate_up [OF assms(1,2,5,6)] by (simp add: up_step_def)
qed

text \<open>
  Anchor slot 2, value 250, factor 1.14 (the Number the literal denotes): the product
  \<^verbatim>\<open>250 * 1.14\<close> is 285 after rounding, though the exact product lies below 285, and
  slot 1 holds 286.
\<close>

theorem upward_pass_recurrence_witness:
  "js_round (57 / 50) = Num (5134103575202365 / 4503599627370496)
   \<and> calculateBaseSpeeds 2 (Num 250) (Num (5134103575202365 / 4503599627370496)) =
       [Num 286, Num 250, Num 218, Num 190]
   \<and> js_eq (calculateBaseSpeeds 2 (Num 250) (Num (5134103575202365 / 4503599627370496)) ! 0)
        (js_add (js_floor (js_mul
           (calculateBaseSpeeds 2 (Num 250) (Num (5134103575202365 / 4503599627370496)) ! 1)
           (Num (5134103575202365 / 4503599627370496)))) (Num 1))"
proof (intro conjI)
  show "js_round (57 / 50) = Num (5134103575202365 / 4503599627370496)"
    by code_simp
  show "calculateBaseSpeeds 2 (Num 250) (Num (5134103575202365 / 4503599627370496)) =
       [Num 286, Num 250, Num 218, Num 190]"
    by code_simp
  show "js_eq (calculateBaseSpeeds 2 (Num 250) (Num (5134103575202365 / 4503599627370496)) ! 0)
        (js_add (js_floor (js_mul
           (calculateBaseSpeeds 2 (Num 250) (Num (5134103575202365 / 4503599627370496)) ! 1)
           (Num (5134103575202365 / 4503599627370496)))) (Num 1))"
    using upward_pass_recurrence [of 2 "5134103575202365 / 4503599627370496" 250 1] by simp
qed

text \<open>
  Claim C2. For every anchor slot \<open>s\<close> in 1..4, every factor \<open>f > 1\<close> and every
  non-negative integer anchor value \<open>v\<close>, each slot \<open>i > s\<close> of the returned array holds
  \<^verbatim>\<open>Math.floor(out[i-1] / f) - 1\<close>: it is chained from the value of the slot just above
  it, not from the anchor.
\<close>

theorem downward_pass_recurrence:
  assumes "1 \<le> s" "s \<le> 4" "1 < f" "0 \<le> v" "s < i" "i \<le> 4"
  shows "js_eq (calculateBaseSpeeds s (Num (of_int v)) (Num f) ! nat (i - 1))
           (js_sub (js_floor (js_div (calculateBaseSpeeds s (Num (of_int v)) (Num f) ! nat (i - 2))
              (Num f))) (Num 1))"
proof -
  have "nat (i - 1) < 4" using assms by arith
  moreover have "f \<noteq> 0" using assms by simp
  ultimately have "calculateBaseSpeeds s (Num (of_int v)) (Num f) ! nat (i - 1) \<noteq> NaN"
    using assms(1,2) by (simp add: propagate_not_NaN)
  then have "js_eq (calculateBaseSpeeds s (Num (of_int v)) (Num f) ! nat (i - 1))
      (calculateBaseSpeeds s (Num (of_int v)) (Num f) ! nat (i - 1))"
    by (rule js_eq_refl)
  then show ?thesis
    using propagate_down [OF assms(1,2,5,6)] by (simp add: down_step_def)
qed

text \<open>
  Anchor slot 1, value 11, factor 1.1 (the Number the literal denotes): the quotient
  \<^verbatim>\<open>11 / 1.1\<close> is 10 after rounding, though the exact quotient lies below 10, and slot 2
  holds 9; slot 3 is computed from slot 2.
\<close>

theorem downward_pass_recurrence_witness:
  "js_round (11 / 10) = Num (2476979795053773 / 2251799813685248)
   \<and> calculateBaseSpeeds 1 (Num 11) (Num (2476979795053773 / 2251799813685248)) =
       [Num 11, Num 9, Num 7, Num 5]
   \<and> js_eq (calculateBaseSpeeds 1 (Num 11) (Num (2476979795053773 / 2251799813685248)) ! 2)
        (js_sub (js_floor (js_div
           (calculateBaseSpeeds 1 (Num 11) (Num (2476979795053773 / 2251799813685248)) ! 1)
           (Num (2476979795053773 / 2251799813685248)))) (Num 1))"
proof (intro conjI)
  show "js_round (11 / 10) = Num (2476979795053773 / 2251799813685248)"
    by code_simp
  show "calculateBaseSpeeds 1 (Num 11) (Num (2476979795053773 / 2251799813685248)) =
       [Num 11, Num 9, Num 7, Num 5]"
    by code_simp
  show "js_eq (calculateBaseSpeeds 1 (Num 11) (Num (2476979795053773 / 2251799813685248)) ! 2)
        (js_sub (js_floor (js_div
           (calculateBaseSpeeds 1 (Num 11) (Num (2476979795053773 / 2251799813685248)) ! 1)
           (Num (2476979795053773 / 2251799813685248)))) (Num 1))"
    using downward_pass_recurrence [of 1 "2476979795053773 / 2251799813685248" 11 3] by simp
qed

text \<open>
  Claim C3. For every anchor slot \<open>s\<close> in 1..4, every factor \<open>f > 1\<close> and every
  non-negative integer anchor value \<open>v\<close>, the entry of the returned array at slot \<open>s\<close>
  is \<open>v\<close> itself.
\<close>

theorem anchor_slot_exact:
  assumes "1 \<le> s" "s \<le> 4" "1 < f" "0 \<le> v"
  shows "js_eq (calculateBaseSpeeds s (Num (of_int v)) (Num f) ! nat (s - 1)) (Num (of_int v))"
  using assms by (simp add: propagate_anchor js_eq_def)

theorem anchor_slot_exact_witness:
  "js_eq (calculateBaseSpeeds 2 (Num 1000) (Num (5 / 4)) ! 1) (Num 1000)"
  using anchor_slot_exact [of 2 "5 / 4" 1000] by simp

text \<open>
  Claim C8 says that the returned array strictly decreases over the slots up to the
  anchor. A product that overflows is Infinity, and so is every value computed from it:
  at anchor slot 3, value \<open>2^1023\<close> and factor 2, slots 1 and 2 both hold Infinity, and
  \<^verbatim>\<open>Infinity > Infinity\<close> is false.
\<close>

theorem upward_overflow_not_decreasing:
  "js_representable (2 ^ 1023)
   \<and> calculateBaseSpeeds 3 (Num (2 ^ 1023)) (Num 2) ! 1 = PosInf
   \<and> calculateBaseSpeeds 3 (Num (2 ^ 1023)) (Num 2) ! 0 = PosInf
   \<and> \<not> js_gt (calculateBaseSpeeds 3 (Num (2 ^ 1023)) (Num 2) ! 0)
          (calculateBaseSpeeds 3 (Num (2 ^ 1023)) (Num 2) ! 1)"
proof -
  have "js_representable (2 powi 1023)"
  proof (rule representable_grid)
    show "on_grid 971 ((2::rat) powi 1023)" by (rule on_grid_pow) simp
    show "(2::rat) powi 1023 \<le> 2 powi (971 + 53)" by (intro pow2_mono) simp
  qed simp_all
  then have r: "js_representable (2 ^ 1023)" by simp
  have "js_round (2 ^ 1023 * 2) = PosInf" by (rule js_round_overflow) simp
  then have "js_mul (Num (2 ^ 1023)) (Num 2) = PosInf" by (simp add: js_mul_def)
  then have u: "up_step (Num 2) (Num (2 ^ 1023)) = PosInf"
    by (simp add: up_step_def js_add_def)
  have p: "up_step (Num 2) PosInf = PosInf" by (rule up_step_PosInf) simp
  from r u p show ?thesis by (simp add: propagate_3 js_gt_def js_lt_def)
qed

text \<open>
  Claim C8 as amended. For every anchor slot \<open>s\<close> in 1..4, every Number \<open>f > 1\<close> and
  every non-negative integer Number \<open>v\<close>, for every slot \<open>i\<close> with \<open>1 \<le> i < s\<close>:
  \<^verbatim>\<open>out[i] > out[i+1]\<close> unless \<^verbatim>\<open>out[i+1]\<close> is Infinity, and then \<^verbatim>\<open>out[i]\<close> is Infinity
  too.
\<close>

theorem upward_region_decreasing_unless_overflow:
  assumes "1 \<le> s" "s \<le> 4" "1 < f" "js_representable f" "0 \<le> v" "js_representable (of_int v)"
    and "1 \<le> i" "i < s"
  shows "(calculateBaseSpeeds s (Num (of_int v)) (Num f) ! nat i \<noteq> PosInf \<longrightarrow>
            js_gt (calculateBaseSpeeds s (Num (of_int v)) (Num f) ! nat (i - 1))
              (calculateBaseSpeeds s (Num (of_int v)) (Num f) ! nat i))
       \<and> (calculateBaseSpeeds s (Num (of_int v)) (Num f) ! nat i = PosInf \<longrightarrow>
            calculateBaseSpeeds s (Num (of_int v)) (Num f) ! nat (i - 1) = PosInf)"
proof -
  have "v = 0 \<or> 1 \<le> v" using assms(5) by linarith
  then have "(of_int v :: rat) = 0 \<or> (1::rat) \<le> of_int v" by auto
  then have v: "js_upward (Num (of_int v))" using assms(6) by simp
  have "js_upward (calculateBaseSpeeds s (Num (of_int v)) (Num f) ! nat ((i + 1) - 1))"
    using assms(1,2,4,3) v by (rule propagate_upward) (use assms in simp_all)
  then have u: "js_upward (calculateBaseSpeeds s (Num (of_int v)) (Num f) ! nat i)" by simp
  show ?thesis
    using propagate_up [OF assms(1,2,7,8), of "Num (of_int v)" "Num f"]
      upward_up_step(2,3) [OF u assms(4,3)]
    by simp
qed

text \<open>Anchor slot 2, value 250, factor 1.14: slot 1 holds 286, above the anchor's 250.\<close>

theorem upward_region_decreasing_unless_overflow_witness:
  "calculateBaseSpeeds 2 (Num 250) (Num (5134103575202365 / 4503599627370496)) =
     [Num 286, Num 250, Num 218, Num 190]
   \<and> js_gt (calculateBaseSpeeds 2 (Num 250) (Num (5134103575202365 / 4503599627370496)) ! 0)
        (calculateBaseSpeeds 2 (Num 250) (Num (5134103575202365 / 4503599627370496)) ! 1)"
proof
  show v: "calculateBaseSpeeds 2 (Num 250) (Num (5134103575202365 / 4503599627370496)) =
     [Num 286, Num 250, Num 218, Num 190]"
    by code_simp
  have f: "js_representable (5134103575202365 / 4503599627370496)" by code_simp
  have r: "js_representable 250" by code_simp
  from upward_region_decreasing_unless_overflow
    [of 2 "5134103575202365 / 4503599627370496" 250 1] f r
  have "calculateBaseSpeeds 2 (Num 250) (Num (5134103575202365 / 4503599627370496)) ! 1 \<noteq>
          PosInf \<longrightarrow>
        js_gt (calculateBaseSpeeds 2 (Num 250) (Num (5134103575202365 / 4503599627370496)) ! 0)
          (calculateBaseSpeeds 2 (Num 250) (Num (5134103575202365 / 4503599627370496)) ! 1)"
    by simp
  moreover have
    "calculateBaseSpeeds 2 (Num 250) (Num (5134103575202365 / 4503599627370496)) ! 1 \<noteq> PosInf"
    by (simp add: v)
  ultimately show
    "js_gt (calculateBaseSpeeds 2 (Num 250) (Num (5134103575202365 / 4503599627370496)) ! 0)
        (calculateBaseSpeeds 2 (Num 250) (Num (5134103575202365 / 4503599627370496)) ! 1)"
    by (rule mp)
qed

section \<open>Properties of the Buff-Aware Resolver\<close>

text \<open>
  The anchor's raw speed is a non-negative integer \<open>r\<close>, the buff multipliers are four
  positive rationals \<open>bs\<close>. The indices of \<^verbatim>\<open>baseSpeeds\<close> and \<^verbatim>\<open>effectiveSpeeds\<close> count
  from 0, so the anchor slot \<open>s\<close> sits at index \<open>nat (s - 1)\<close>.
\<close>

text \<open>
  Claim C4. For every anchor slot \<open>s\<close> in 1..4, every non-negative integer raw speed
  \<open>r\<close>, every factor \<open>f > 1\<close> and every four positive buff multipliers, the entry of
  \<^verbatim>\<open>baseSpeeds\<close> for the anchor slot is the input \<open>r\<close> itself.
\<close>

theorem resolver_anchor_echo:
  assumes "1 \<le> s" "s \<le> 4" "0 \<le> r" "1 < f" "length bs = 4" "\<forall>x\<in>set bs. 0 < x"
  shows "js_eq (baseSpeeds (calculateWithBuffs s (Num (of_int r)) (Num f) (map Num bs)) ! nat (s - 1))
           (Num (of_int r))"
  using assms(5) anchor_index [OF assms(1,2)] by (simp add: baseSpeeds_nth js_eq_def)

text \<open>
  Anchor slot 2, raw speed 1001, factor 1.25, buffs 150\%, 50\%, 100\%, 200\%: the anchor's
  effective speed is 500, and 1001 is returned, not \<open>floor(500 / 0.5) = 1000\<close>.
\<close>

theorem resolver_anchor_echo_witness:
  "calculateWithBuffs 2 (Num 1001) (Num (5 / 4)) [Num (3 / 2), Num (1 / 2), Num 1, Num 2] =
     \<lparr>baseSpeeds = [Num 417, Num 1001, Num 399, Num 159],
      effectiveSpeeds = [Num 625, Num 500, Num 399, Num 318]\<rparr>
   \<and> js_eq (baseSpeeds (calculateWithBuffs 2 (Num 1001) (Num (5 / 4))
               [Num (3 / 2), Num (1 / 2), Num 1, Num 2]) ! 1) (Num 1001)"
proof
  show "calculateWithBuffs 2 (Num 1001) (Num (5 / 4)) [Num (3 / 2), Num (1 / 2), Num 1, Num 2] =
     \<lparr>baseSpeeds = [Num 417, Num 1001, Num 399, Num 159],
      effectiveSpeeds = [Num 625, Num 500, Num 399, Num 318]\<rparr>"
    by code_simp
  show "js_eq (baseSpeeds (calculateWithBuffs 2 (Num 1001) (Num (5 / 4))
               [Num (3 / 2), Num (1 / 2), Num 1, Num 2]) ! 1) (Num 1001)"
    using resolver_anchor_echo [of 2 1001 "5 / 4" "[3 / 2, 1 / 2, 1, 2]"] by simp
qed

text \<open>
  Claim C5. Under the same preconditions, every entry of \<^verbatim>\<open>effectiveSpeeds\<close>, the
  anchor's included, is \<^verbatim>\<open>Math.floor(rawSpeeds[i] * b[i])\<close>.
\<close>

theorem effective_speed_consistency:
  assumes "1 \<le> s" "s \<le> 4" "0 \<le> r" "1 < f" "length bs = 4" "\<forall>x\<in>set bs. 0 < x" "i < 4"
  shows "js_eq (effectiveSpeeds (calculateWithBuffs s (Num (of_int r)) (Num f) (map Num bs)) ! i)
           (js_floor (js_mul (baseSpeeds (calculateWithBuffs s (Num (of_int r)) (Num f) (map Num bs)) ! i)
              (map Num bs ! i)))"
proof -
  have f: "f \<noteq> 0" using assms(4) by simp
  have "0 < bs ! i" using assms(5,6,7) by simp
  then have b: "bs ! i \<noteq> 0" by simp
  have "baseSpeeds (calculateWithBuffs s (Num (of_int r)) (Num f) (map Num bs)) ! i \<noteq> NaN"
    using assms(1,2) f assms(5,6,7) by (rule baseSpeeds_not_NaN)
  then have "js_floor (js_mul
      (baseSpeeds (calculateWithBuffs s (Num (of_int r)) (Num f) (map Num bs)) ! i) (Num (bs ! i)))
      \<noteq> NaN"
    using b by (simp add: js_floor_not_NaN js_mul_not_NaN)
  then have "js_eq
      (js_floor (js_mul
        (baseSpeeds (calculateWithBuffs s (Num (of_int r)) (Num f) (map Num bs)) ! i) (Num (bs ! i))))
      (js_floor (js_mul
        (baseSpeeds (calculateWithBuffs s (Num (of_int r)) (Num f) (map Num bs)) ! i) (Num (bs ! i))))"
    by (rule js_eq_refl)
  then show ?thesis
    using assms(5,7) by (simp add: effectiveSpeeds_nth)
qed

text \<open>
  Anchor slot 1, raw speed 1000, factor 1.2, anchor buff 60\% (the Numbers the literals
  denote): \<^verbatim>\<open>1000 * 0.6\<close> is 600 after rounding, though the exact product lies below
  600, and the anchor's effective speed is 600.
\<close>

theorem effective_speed_consistency_witness:
  "js_round (3 / 5) = Num (5404319552844595 / 9007199254740992)
   \<and> js_round (6 / 5) = Num (5404319552844595 / 4503599627370496)
   \<and> calculateWithBuffs 1 (Num 1000) (Num (5404319552844595 / 4503599627370496))
       [Num (5404319552844595 / 9007199254740992), Num 1, Num 1, Num 1] =
     \<lparr>baseSpeeds = [Num 1000, Num 499, Num 414, Num 344],
      effectiveSpeeds = [Num 600, Num 499, Num 414, Num 344]\<rparr>
   \<and> js_eq (effectiveSpeeds (calculateWithBuffs 1 (Num 1000)
         (Num (5404319552844595 / 4503599627370496))
         [Num (5404319552844595 / 9007199254740992), Num 1, Num 1, Num 1]) ! 0)
       (js_floor (js_mul (baseSpeeds (calculateWithBuffs 1 (Num 1000)
         (Num (5404319552844595 / 4503599627370496))
         [Num (5404319552844595 / 9007199254740992), Num 1, Num 1, Num 1]) ! 0)
         (Num (5404319552844595 / 9007199254740992))))"
proof (intro conjI)
  show "js_round (3 / 5) = Num (5404319552844595 / 9007199254740992)"
    by code_simp
  show "js_round (6 / 5) = Num (5404319552844595 / 4503599627370496)"
    by code_simp
  show "calculateWithBuffs 1 (Num 1000) (Num (5404319552844595 / 4503599627370496))
       [Num (5404319552844595 / 9007199254740992), Num 1, Num 1, Num 1] =
     \<lparr>baseSpeeds = [Num 1000, Num 499, Num 414, Num 344],
      effectiveSpeeds = [Num 600, Num 499, Num 414, Num 344]\<rparr>"
    by code_simp
  show "js_eq (effectiveSpeeds (calculateWithBuffs 1 (Num 1000)
         (Num (5404319552844595 / 4503599627370496))
         [Num (5404319552844595 / 9007199254740992), Num 1, Num 1, Num 1]) ! 0)
       (js_floor (js_mul (baseSpeeds (calculateWithBuffs 1 (Num 1000)
         (Num (5404319552844595 / 4503599627370496))
         [Num (5404319552844595 / 9007199254740992), Num 1, Num 1, Num 1]) ! 0)
         (Num (5404319552844595 / 9007199254740992))))"
    using effective_speed_consistency [of 1 1000 "5404319552844595 / 4503599627370496"
        "[5404319552844595 / 9007199254740992, 1, 1, 1]" 0]
    by simp
qed

text \<open>
  Claim C7. For every anchor slot \<open>s\<close> in 1..4, every non-negative integer raw speed
  \<open>r\<close> (a Number, as every value the program receives is) and every factor \<open>f > 1\<close>,
  when all four buff multipliers are 1 the array \<^verbatim>\<open>baseSpeeds\<close> of the resolver is the
  array \<^verbatim>\<open>calculateBaseSpeeds(s, r, f)\<close>, entry for entry.
\<close>

theorem unit_buffs_resolver_is_propagator:
  assumes "1 \<le> s" "s \<le> 4" "0 \<le> r" "js_representable (of_int r)" "1 < f"
  shows "baseSpeeds (calculateWithBuffs s (Num (of_int r)) (Num f) [Num 1, Num 1, Num 1, Num 1]) =
           calculateBaseSpeeds s (Num (of_int r)) (Num f)
       \<and> list_all2 js_eq
           (baseSpeeds (calculateWithBuffs s (Num (of_int r)) (Num f) [Num 1, Num 1, Num 1, Num 1]))
           (calculateBaseSpeeds s (Num (of_int r)) (Num f))"
proof -
  let ?b = "[Num 1, Num 1, Num 1, Num 1]"
  let ?R = "baseSpeeds (calculateWithBuffs s (Num (of_int r)) (Num f) ?b)"
  let ?e = "calculateBaseSpeeds s (Num (of_int r)) (Num f)"
  have f: "f \<noteq> 0" using assms(5) by simp
  have r: "js_whole (Num (of_int r))" using assms(4) by simp
  have whole: "js_whole (?e ! i)" if "i < 4" for i
    using assms(1,2) f r that by (rule propagate_whole)
  have b: "?b ! i = Num 1" if "i < 4" for i
  proof -
    from that have "i = 0 \<or> i = 1 \<or> i = 2 \<or> i = 3" by arith
    then show ?thesis by (elim disjE) simp_all
  qed
  have "js_index ?b (s - 1) = Num 1"
    using assms(1,2) b [of "nat (s - 1)"] by (simp add: js_index_def)
  then have p: "propagatedEffectiveSpeeds s (Num (of_int r)) (Num f) ?b = ?e"
    by (simp add: propagatedEffectiveSpeeds_def representable_floor_mul_one [OF assms(4)])
  have nth: "?R ! i = ?e ! i" if "i < 4" for i
  proof (cases "int i = s - 1")
    case True
    then have "nat (s - 1) = i" by simp
    with propagate_anchor [OF assms(1,2), of "Num (of_int r)" "Num f"]
    have "?e ! i = Num (of_int r)" by simp
    with True that show ?thesis by (simp add: baseSpeeds_nth)
  next
    case False
    with that show ?thesis
      by (simp add: baseSpeeds_nth p b whole_floor_div_one whole del: nth_Cons_numeral)
  qed
  have eq: "?R = ?e"
    by (rule nth_equalityI) (simp_all add: baseSpeeds_length propagate_length nth)
  have "list_all2 js_eq ?e ?e"
    by (simp add: list_all2_conv_all_nth propagate_length js_eq_refl whole_not_NaN whole)
  with eq show ?thesis by simp
qed

text \<open>Anchor slot 3, raw speed 1000, factor 1.14, all buffs 100\%.\<close>

theorem unit_buffs_resolver_is_propagator_witness:
  "js_representable 1000
   \<and> baseSpeeds (calculateWithBuffs 3 (Num 1000) (Num (5134103575202365 / 4503599627370496))
        [Num 1, Num 1, Num 1, Num 1]) =
     [Num 1301, Num 1141, Num 1000, Num 876]
   \<and> calculateBaseSpeeds 3 (Num 1000) (Num (5134103575202365 / 4503599627370496)) =
     [Num 1301, Num 1141, Num 1000, Num 876]"
proof (intro conjI)
  show r: "js_representable 1000" by code_simp
  show v: "calculateBaseSpeeds 3 (Num 1000) (Num (5134103575202365 / 4503599627370496)) =
     [Num 1301, Num 1141, Num 1000, Num 876]"
    by code_simp
  have "baseSpeeds (calculateWithBuffs 3 (Num 1000) (Num (5134103575202365 / 4503599627370496))
        [Num 1, Num 1, Num 1, Num 1]) =
      calculateBaseSpeeds 3 (Num 1000) (Num (5134103575202365 / 4503599627370496))"
    using unit_buffs_resolver_is_propagator [of 3 1000 "5134103575202365 / 4503599627370496"] r
    by simp
  with v show "baseSpeeds (calculateWithBuffs 3 (Num 1000)
        (Num (5134103575202365 / 4503599627370496)) [Num 1, Num 1, Num 1, Num 1]) =
     [Num 1301, Num 1141, Num 1000, Num 876]"
    by simp
qed

text \<open>
  Claim C9 says that at a slot other than the anchor the final effective speed
  \<^verbatim>\<open>Math.floor(Math.floor(e / b) * b)\<close> never exceeds the value \<open>e\<close> propagated in step 2.
  The quotient and the product are rounded, and above \<open>2^52\<close> the rounding can carry the
  result past \<open>e\<close>: at anchor slot 1, raw speed \<open>2^53\<close>, factor 1.25 and buffs 100\%, 150\%,
  100\%, 100\%, slot 2 is propagated to 7205759403792793 and displayed as
  7205759403792794. (A quotient that overflows, with a buff multiplier near \<open>2^-1022\<close>,
  is Infinity and exceeds \<open>e\<close> as well.)
\<close>

theorem roundtrip_increases_at_large_values:
  "js_representable 9007199254740992 \<and> js_representable (5 / 4) \<and> js_representable (3 / 2)
   \<and> propagatedEffectiveSpeeds 1 (Num 9007199254740992) (Num (5 / 4))
        [Num 1, Num (3 / 2), Num 1, Num 1] ! 1 = Num 7205759403792793
   \<and> effectiveSpeeds (calculateWithBuffs 1 (Num 9007199254740992) (Num (5 / 4))
        [Num 1, Num (3 / 2), Num 1, Num 1]) ! 1 = Num 7205759403792794
   \<and> \<not> js_le (effectiveSpeeds (calculateWithBuffs 1 (Num 9007199254740992) (Num (5 / 4))
          [Num 1, Num (3 / 2), Num 1, Num 1]) ! 1)
        (propagatedEffectiveSpeeds 1 (Num 9007199254740992) (Num (5 / 4))
          [Num 1, Num (3 / 2), Num 1, Num 1] ! 1)"
proof -
  have r: "js_representable 9007199254740992" "js_representable (5 / 4)" "js_representable (3 / 2)"
    by code_simp+
  have p: "propagatedEffectiveSpeeds 1 (Num 9007199254740992) (Num (5 / 4))
        [Num 1, Num (3 / 2), Num 1, Num 1] ! 1 = Num 7205759403792793"
    by code_simp
  have e: "effectiveSpeeds (calculateWithBuffs 1 (Num 9007199254740992) (Num (5 / 4))
        [Num 1, Num (3 / 2), Num 1, Num 1]) ! 1 = Num 7205759403792794"
    by code_simp
  from r p e show ?thesis by (simp add: js_le_Num)
qed

text \<open>
  Claim C9 as amended. Under the preconditions of C4, with buff multipliers that are
  Numbers, at every slot other than the anchor whose propagated value \<open>e\<close> lies strictly
  between \<open>-2^52\<close> and \<open>2^52\<close> and whose raw speed \<^verbatim>\<open>Math.floor(e / b)\<close> has not
  overflowed to Infinity, the final effective speed is
  \<^verbatim>\<open>Math.floor(Math.floor(e / b) * b)\<close> and it never exceeds \<open>e\<close>.
\<close>

theorem roundtrip_never_increases_in_range:
  assumes "1 \<le> s" "s \<le> 4" "0 \<le> r" "1 < f" "length bs = 4"
    and "\<forall>x\<in>set bs. 0 < x \<and> js_representable x"
    and "i < 4" "int i \<noteq> s - 1"
    and "js_lt (Num (- (2 ^ 52)))
           (propagatedEffectiveSpeeds s (Num (of_int r)) (Num f) (map Num bs) ! i)"
    and "js_lt (propagatedEffectiveSpeeds s (Num (of_int r)) (Num f) (map Num bs) ! i)
           (Num (2 ^ 52))"
    and "baseSpeeds (calculateWithBuffs s (Num (of_int r)) (Num f) (map Num bs)) ! i \<noteq> PosInf"
  shows "effectiveSpeeds (calculateWithBuffs s (Num (of_int r)) (Num f) (map Num bs)) ! i =
           js_floor (js_mul (js_floor (js_div
             (propagatedEffectiveSpeeds s (Num (of_int r)) (Num f) (map Num bs) ! i) (map Num bs ! i)))
             (map Num bs ! i))
       \<and> js_le (effectiveSpeeds (calculateWithBuffs s (Num (of_int r)) (Num f) (map Num bs)) ! i)
           (propagatedEffectiveSpeeds s (Num (of_int r)) (Num f) (map Num bs) ! i)"
proof -
  let ?e = "propagatedEffectiveSpeeds s (Num (of_int r)) (Num f) (map Num bs) ! i"
  have f: "f \<noteq> 0" using assms(4) by simp
  have b: "0 < bs ! i" "js_representable (bs ! i)" using assms(5,6,7) by simp_all
  have "0 < bs ! nat (s - 1)" using assms(1,2,5,6) by simp
  then have "js_floor (js_mul (Num (of_int r)) (Num (bs ! nat (s - 1)))) \<noteq> NaN"
    by (simp add: js_floor_not_NaN js_mul_not_NaN)
  with assms(1,2) f have "js_whole
      (calculateBaseSpeeds s (js_floor (js_mul (Num (of_int r)) (Num (bs ! nat (s - 1))))) (Num f) ! i)"
    using assms(7,8) by (rule propagate_whole_off_anchor)
  then have "js_whole ?e" by (simp add: propagated_anchor_buff [OF assms(1,2,5)])
  from whole_bounded [OF this assms(9,10)]
  obtain n where n: "?e = Num (of_int n)" "\<bar>n\<bar> < 2 ^ 52" by blast
  have raw: "baseSpeeds (calculateWithBuffs s (Num (of_int r)) (Num f) (map Num bs)) ! i =
      js_floor (js_div ?e (Num (bs ! i)))"
    using assms(5,7,8) by (simp add: baseSpeeds_nth)
  with assms(11) n(1) have "js_floor (js_div (Num (of_int n)) (Num (bs ! i))) \<noteq> PosInf"
    by simp
  with n(2) b have "js_le
      (js_floor (js_mul (js_floor (js_div (Num (of_int n)) (Num (bs ! i)))) (Num (bs ! i))))
      (Num (of_int n))"
    by (intro roundtrip_le)
  then have "js_le (js_floor (js_mul (js_floor (js_div ?e (Num (bs ! i)))) (Num (bs ! i)))) ?e"
    by (simp only: n(1))
  then show ?thesis
    using assms(5,7,8) by (simp add: effectiveSpeeds_nth raw)
qed

text \<open>
  Anchor slot 2, raw speed 1000, factor 1.2, buffs 60\%, 100\%, 57\%, 100\%: slot 1 is
  propagated to 1201, its raw speed is 2001, and it is displayed as 1200.
\<close>

theorem roundtrip_never_increases_in_range_witness:
  "propagatedEffectiveSpeeds 2 (Num 1000) (Num (5404319552844595 / 4503599627370496))
     [Num (5404319552844595 / 9007199254740992), Num 1,
      Num (5134103575202365 / 9007199254740992), Num 1] ! 0 = Num 1201
   \<and> effectiveSpeeds (calculateWithBuffs 2 (Num 1000) (Num (5404319552844595 / 4503599627370496))
        [Num (5404319552844595 / 9007199254740992), Num 1,
         Num (5134103575202365 / 9007199254740992), Num 1]) ! 0 = Num 1200
   \<and> js_le (effectiveSpeeds (calculateWithBuffs 2 (Num 1000)
        (Num (5404319552844595 / 4503599627370496))
        [Num (5404319552844595 / 9007199254740992), Num 1,
         Num (5134103575202365 / 9007199254740992), Num 1]) ! 0)
      (propagatedEffectiveSpeeds 2 (Num 1000) (Num (5404319552844595 / 4503599627370496))
        [Num (5404319552844595 / 9007199254740992), Num 1,
         Num (5134103575202365 / 9007199254740992), Num 1] ! 0)"
proof (intro conjI)
  let ?f = "5404319552844595 / 4503599627370496 :: rat"
  let ?bs = "[5404319552844595 / 9007199254740992, 1, 5134103575202365 / 9007199254740992, 1] :: rat list"
  show p: "propagatedEffectiveSpeeds 2 (Num 1000) (Num ?f)
     [Num (5404319552844595 / 9007199254740992), Num 1,
      Num (5134103575202365 / 9007199254740992), Num 1] ! 0 = Num 1201"
    by code_simp
  show "effectiveSpeeds (calculateWithBuffs 2 (Num 1000) (Num ?f)
        [Num (5404319552844595 / 9007199254740992), Num 1,
         Num (5134103575202365 / 9007199254740992), Num 1]) ! 0 = Num 1200"
    by code_simp
  have raw: "baseSpeeds (calculateWithBuffs 2 (Num 1000) (Num ?f)
        [Num (5404319552844595 / 9007199254740992), Num 1,
         Num (5134103575202365 / 9007199254740992), Num 1]) ! 0 = Num 2001"
    by code_simp
  have b: "js_representable (5404319552844595 / 9007199254740992)" "js_representable 1"
    "js_representable (5134103575202365 / 9007199254740992)"
    by code_simp+
  have lo: "js_lt (Num (- (2 ^ 52))) (Num 1201)" and hi: "js_lt (Num 1201) (Num (2 ^ 52))"
    by (simp_all add: js_lt_def)
  from roundtrip_never_increases_in_range [of 2 1000 ?f ?bs 0, THEN conjunct2] b p raw lo hi
  show "js_le (effectiveSpeeds (calculateWithBuffs 2 (Num 1000) (Num ?f)
        [Num (5404319552844595 / 9007199254740992), Num 1,
         Num (5134103575202365 / 9007199254740992), Num 1]) ! 0)
      (propagatedEffectiveSpeeds 2 (Num 1000) (Num ?f)
        [Num (5404319552844595 / 9007199254740992), Num 1,
         Num (5134103575202365 / 9007199254740992), Num 1] ! 0)"
    by simp
qed

text \<open>
  Claim C10. Under the preconditions of C4, the final effective speed of the anchor
  slot is \<^verbatim>\<open>Math.floor(r * b[s-1])\<close>, the very value step 2 hands to the propagator and
  the propagator returns at the anchor slot: step 4 cannot diverge from step 2 there.
\<close>

theorem anchor_effective_speed_stable:
  assumes "1 \<le> s" "s \<le> 4" "0 \<le> r" "1 < f" "length bs = 4" "\<forall>x\<in>set bs. 0 < x"
  shows "js_eq (effectiveSpeeds (calculateWithBuffs s (Num (of_int r)) (Num f) (map Num bs)) ! nat (s - 1))
           (js_floor (js_mul (Num (of_int r)) (map Num bs ! nat (s - 1))))
       \<and> js_eq (effectiveSpeeds (calculateWithBuffs s (Num (of_int r)) (Num f) (map Num bs)) ! nat (s - 1))
           (propagatedEffectiveSpeeds s (Num (of_int r)) (Num f) (map Num bs) ! nat (s - 1))"
proof -
  have "0 < bs ! nat (s - 1)" using assms(1,2,5,6) by simp
  then have "js_floor (js_mul (Num (of_int r)) (Num (bs ! nat (s - 1)))) \<noteq> NaN"
    by (simp add: js_floor_not_NaN js_mul_not_NaN)
  then have "js_eq (js_floor (js_mul (Num (of_int r)) (Num (bs ! nat (s - 1)))))
      (js_floor (js_mul (Num (of_int r)) (Num (bs ! nat (s - 1)))))"
    by (rule js_eq_refl)
  then show ?thesis
    using assms(5) anchor_index [OF assms(1,2)]
    by (simp add: effectiveSpeeds_nth baseSpeeds_nth propagated_anchor_buff [OF assms(1,2,5)]
          propagate_anchor [OF assms(1,2)])
qed

text \<open>
  Anchor slot 1, raw speed 100, factor 1.2, anchor buff 57\% (the Numbers the literals
  denote): \<^verbatim>\<open>100 * 0.57\<close> is below 57 after rounding, and the anchor's effective speed is
  56 in step 2 and in step 4.
\<close>

theorem anchor_effective_speed_stable_witness:
  "js_round (57 / 100) = Num (5134103575202365 / 9007199254740992)
   \<and> js_floor (js_mul (Num 100) (Num (5134103575202365 / 9007199254740992))) = Num 56
   \<and> js_eq (effectiveSpeeds (calculateWithBuffs 1 (Num 100)
         (Num (5404319552844595 / 4503599627370496))
         [Num (5134103575202365 / 9007199254740992), Num 1, Num 1, Num 1]) ! 0)
       (Num 56)
   \<and> js_eq (effectiveSpeeds (calculateWithBuffs 1 (Num 100)
         (Num (5404319552844595 / 4503599627370496))
         [Num (5134103575202365 / 9007199254740992), Num 1, Num 1, Num 1]) ! 0)
       (propagatedEffectiveSpeeds 1 (Num 100) (Num (5404319552844595 / 4503599627370496))
         [Num (5134103575202365 / 9007199254740992), Num 1, Num 1, Num 1] ! 0)"
proof -
  have r: "js_round (57 / 100) = Num (5134103575202365 / 9007199254740992)"
    by code_simp
  have v: "js_floor (js_mul (Num 100) (Num (5134103575202365 / 9007199254740992))) = Num 56"
    by code_simp
  from anchor_effective_speed_stable [of 1 100 "5404319552844595 / 4503599627370496"
        "[5134103575202365 / 9007199254740992, 1, 1, 1]"]
  have "js_eq (effectiveSpeeds (calculateWithBuffs 1 (Num 100)
         (Num (5404319552844595 / 4503599627370496))
         [Num (5134103575202365 / 9007199254740992), Num 1, Num 1, Num 1]) ! 0)
       (js_floor (js_mul (Num 100) (Num (5134103575202365 / 9007199254740992))))
   \<and> js_eq (effectiveSpeeds (calculateWithBuffs 1 (Num 100)
         (Num (5404319552844595 / 4503599627370496))
         [Num (5134103575202365 / 9007199254740992), Num 1, Num 1, Num 1]) ! 0)
       (propagatedEffectiveSpeeds 1 (Num 100) (Num (5404319552844595 / 4503599627370496))
         [Num (5134103575202365 / 9007199254740992), Num 1, Num 1, Num 1] ! 0)"
    by simp
  with r v show ?thesis by simp
qed

text \<open>
  Claim C6 says that a zero buff multiplier at a slot other than the anchor makes the
  division of step 3 signal a fault. The division operator of the language signals
  nothing: the call returns, with an infinity or NaN as the slot's raw speed and NaN as
  its effective speed. At anchor slot 1, raw speed 1000, factor 1.2 (the Number the
  literal denotes) and buffs 100\%, 0\%, 100\%, 100\% the result is the following.
\<close>

theorem zero_buff_returns_infinity:
  "calculateWithBuffs 1 (Num 1000) (Num (5404319552844595 / 4503599627370496))
     [Num 1, Num 0, Num 1, Num 1] =
     \<lparr>baseSpeeds = [Num 1000, PosInf, Num 692, Num 575],
      effectiveSpeeds = [Num 1000, NaN, Num 692, Num 575]\<rparr>"
  by code_simp

text \<open>
  Claim C6 as amended. For every input whose buff multiplier is zero, of either sign,
  at a slot other than the anchor, the resolver returns; that slot's raw speed is
  Infinity, -Infinity or NaN, and its effective speed is NaN.
\<close>

theorem zero_buff_yields_special_values:
  assumes "length b = 4" "i < 4" "int i \<noteq> s - 1" "js_is_zero (b ! i)"
  shows "baseSpeeds (calculateWithBuffs s r f b) ! i \<in> {PosInf, NegInf, NaN}
       \<and> effectiveSpeeds (calculateWithBuffs s r f b) ! i = NaN"
proof -
  have "baseSpeeds (calculateWithBuffs s r f b) ! i \<in> {PosInf, NegInf, NaN}"
    using assms zero_div_special [OF assms(4)] by (simp add: baseSpeeds_nth)
  then have "js_floor (js_mul (baseSpeeds (calculateWithBuffs s r f b) ! i) (b ! i)) = NaN"
    using assms(4) by (rule special_times_zero)
  with \<open>baseSpeeds (calculateWithBuffs s r f b) ! i \<in> {PosInf, NegInf, NaN}\<close>
  show ?thesis
    using assms(1,2) by (simp add: effectiveSpeeds_nth)
qed

theorem zero_buff_yields_special_values_witness:
  "baseSpeeds (calculateWithBuffs 4 (Num 1000) (Num (5 / 4)) [Num 0, Num 1, Num 1, Num 1]) ! 0
     \<in> {PosInf, NegInf, NaN}
   \<and> effectiveSpeeds (calculateWithBuffs 4 (Num 1000) (Num (5 / 4)) [Num 0, Num 1, Num 1, Num 1]) ! 0
     = NaN"
  using zero_buff_yields_special_values
    [of "[Num 0, Num 1, Num 1, Num 1]" 0 4 "Num 1000" "Num (5 / 4)"]
  by simp

end
